theory Spec2Isabelle
  imports Complex_Main "HOL-Library.AList"
begin

section \<open>cellcutter: the patch extractor of \<open>src/cellcutter/dataset.py\<close>\<close>

text \<open>
  The class \<open>Dataset\<close> cuts one fixed-size patch per object of a marker image out of a
  normalised raw image. The embedding follows the Python method by method.

  \<^item> A two-dimensional array is the list of its rows, a three-dimensional one the list
    of its rows of pixels, a pixel being the list of its channel values. numpy arrays are
    rectangular; the predicates \<open>is_grid\<close> and \<open>is_grid3\<close> say so for lists.
  \<^item> Marker and label values and all coordinates are Python/numpy integers: \<open>int\<close>.
  \<^item> A raw pixel value is a rational number, which covers the finite values of every
    numeric numpy type. \<open>astype(np.float32)\<close> rounds it to IEEE binary32, and the
    subtraction and the division of \<open>__normalize_img\<close> round their exact results in the
    same way (\<open>round32\<close>). A float32 value is a \<open>fval\<close>: a finite number, an infinity
    or NaN. The sign of a zero is not represented.
  \<^item> Every \<open>raise\<close> is a value of \<open>error\<close>; a method that can raise returns
    \<open>error + 'a\<close>.
\<close>

subsection \<open>Errors\<close>

datatype error =
    ImageSizeMismatch      \<comment> \<open>\<open>ValueError('Image size not match each other')\<close>, line 11\<close>
  | LabelNotSet            \<comment> \<open>\<open>ValueError('Lable Image not set.')\<close>, line 84\<close>
  | ZeroSizeReduction      \<comment> \<open>numpy: \<open>np.min\<close>/\<open>np.max\<close> over an axis of length 0\<close>
  | NanToInteger           \<comment> \<open>Python: \<open>int(nan)\<close>\<close>
  | NotEnoughValues        \<comment> \<open>Python: unpacking a 2-tuple into three names\<close>
  | LowGeHigh              \<comment> \<open>numpy: \<open>rng.integers(high)\<close> with \<open>high \<le> 0\<close>\<close>
  | StackShapeMismatch     \<comment> \<open>tensorflow: \<open>tf.stack\<close> of tensors of different shapes\<close>
  | BroadcastMismatch      \<comment> \<open>numpy: operands could not be broadcast together\<close>

subsection \<open>Arrays\<close>

datatype 'a image = Raw2 "'a list list" | Raw3 "'a list list list"

type_synonym raw_img = "rat image"

definition is_grid :: "nat \<Rightarrow> nat \<Rightarrow> 'a list list \<Rightarrow> bool" where
  "is_grid h w g = (length g = h \<and> list_all (\<lambda>r. length r = w) g)"

definition is_grid3 :: "nat \<Rightarrow> nat \<Rightarrow> nat \<Rightarrow> 'a list list list \<Rightarrow> bool" where
  "is_grid3 h w c g = (length g = h \<and> list_all (is_grid w c) g)"

text \<open>\<open>a.shape\<close>. The width of an array without rows is read as 0.\<close>

definition shape1 :: "'a list list \<Rightarrow> nat" where
  "shape1 g = (case g of [] \<Rightarrow> 0 | r # _ \<Rightarrow> length r)"

definition shape2 :: "'a list list \<Rightarrow> nat list" where
  "shape2 g = [length g, shape1 g]"

definition shape3 :: "'a list list list \<Rightarrow> nat list" where
  "shape3 g = [length g, shape1 g, shape1 (concat g)]"

fun raw_shape :: "'a image \<Rightarrow> nat list" where
  "raw_shape (Raw2 g) = shape2 g"
| "raw_shape (Raw3 g) = shape3 g"

text \<open>
  \<open>xs[a:b]\<close> with step 1: a negative bound counts from the end, and both bounds are
  clipped to the list, so a slice never raises and may be shorter than \<open>b - a\<close>.
\<close>

definition py_bound :: "int \<Rightarrow> int \<Rightarrow> int" where
  "py_bound n a = (if a < 0 then max (a + n) 0 else min a n)"

definition py_slice :: "int \<Rightarrow> int \<Rightarrow> 'a list \<Rightarrow> 'a list" where
  "py_slice a b xs =
     (let n = int (length xs); lo = py_bound n a; hi = py_bound n b
      in take (nat (hi - lo)) (drop (nat lo) xs))"

text \<open>\<open>g[c0:c0+s, c1:c1+s]\<close>\<close>

definition crop :: "int \<Rightarrow> int \<Rightarrow> int \<Rightarrow> 'a list list \<Rightarrow> 'a list list" where
  "crop c0 c1 s g = map (py_slice c1 (c1 + s)) (py_slice c0 (c0 + s) g)"

subsection \<open>float32\<close>

text \<open>
  IEEE 754 binary32 has 24 significant bits; the least positive value is \<open>2 ^ -149\<close> and
  the greatest finite value is \<open>(2 ^ 24 - 1) * 2 ^ 104\<close>. Scaled by \<open>2 ^ 149\<close>, the finite
  values are the integers \<open>m * 2 ^ k\<close> with \<open>\<bar>m\<bar> < 2 ^ 24\<close> and \<open>k \<le> 253\<close>.
  \<open>ulp_exponent y\<close> is the \<open>k\<close> of the values around the scaled number \<open>y\<close>: the least
  one with \<open>\<bar>y\<bar> < 2 ^ (k + 24)\<close>. Rounding is to the nearest value, a tie going to the
  even significand, and a result of magnitude \<open>2 ^ 128\<close> or more is an infinity.
\<close>

datatype fval = Num rat | PInf | NInf | NaN

definition round_half_even :: "rat \<Rightarrow> int" where
  "round_half_even x =
     (let f = \<lfloor>x\<rfloor>; d = x - of_int f in
      if d < 1 / 2 then f else if 1 / 2 < d then f + 1 else if even f then f else f + 1)"

fun ulp_search :: "nat \<Rightarrow> nat \<Rightarrow> rat \<Rightarrow> nat" where
  "ulp_search 0 k y = k"
| "ulp_search (Suc n) k y = (if y < 2 ^ (k + 24) then k else ulp_search n (Suc k) y)"

definition ulp_exponent :: "rat \<Rightarrow> nat" where
  "ulp_exponent y = ulp_search 253 0 \<bar>y\<bar>"

definition round_scaled :: "rat \<Rightarrow> rat" where
  "round_scaled y = of_int (round_half_even (y / 2 ^ ulp_exponent y)) * 2 ^ ulp_exponent y"

definition f32_scale :: rat where
  "f32_scale = 2 ^ 149"

definition round32 :: "rat \<Rightarrow> fval" where
  "round32 x =
     (let r = round_scaled (x * f32_scale) in
      if 2 ^ 128 * f32_scale \<le> r then PInf
      else if r \<le> - (2 ^ 128 * f32_scale) then NInf
      else Num (r / f32_scale))"

text \<open>Subtraction and division, with the IEEE results for infinities, NaN and a zero divisor.\<close>

fun f32_sub :: "fval \<Rightarrow> fval \<Rightarrow> fval" where
  "f32_sub (Num a) (Num b) = round32 (a - b)"
| "f32_sub NaN y = NaN"
| "f32_sub x NaN = NaN"
| "f32_sub PInf PInf = NaN"
| "f32_sub NInf NInf = NaN"
| "f32_sub PInf y = PInf"
| "f32_sub NInf y = NInf"
| "f32_sub (Num a) PInf = NInf"
| "f32_sub (Num a) NInf = PInf"

fun f32_div :: "fval \<Rightarrow> fval \<Rightarrow> fval" where
  "f32_div (Num a) (Num b) =
     (if b = 0 then (if a = 0 then NaN else if 0 < a then PInf else NInf)
      else round32 (a / b))"
| "f32_div NaN y = NaN"
| "f32_div x NaN = NaN"
| "f32_div (Num a) y = Num 0"
| "f32_div PInf (Num b) = (if 0 \<le> b then PInf else NInf)"
| "f32_div NInf (Num b) = (if 0 \<le> b then NInf else PInf)"
| "f32_div x y = NaN"

text \<open>The minimum and the maximum of \<open>np.min\<close> and \<open>np.max\<close>: a NaN makes the result NaN.\<close>

fun f32_le :: "fval \<Rightarrow> fval \<Rightarrow> bool" where
  "f32_le (Num a) (Num b) = (a \<le> b)"
| "f32_le NInf y = True"
| "f32_le x PInf = True"
| "f32_le x y = False"

definition f32_min :: "fval \<Rightarrow> fval \<Rightarrow> fval" where
  "f32_min a b = (if a = NaN \<or> b = NaN then NaN else if f32_le a b then a else b)"

definition f32_max :: "fval \<Rightarrow> fval \<Rightarrow> fval" where
  "f32_max a b = (if a = NaN \<or> b = NaN then NaN else if f32_le a b then b else a)"

subsection \<open>\<open>__normalize_img\<close>\<close>

text \<open>\<open>img_in.astype(np.float32)\<close>\<close>

definition astype_float32 :: "raw_img \<Rightarrow> fval image" where
  "astype_float32 r = map_image round32 r"

text \<open>\<open>img[..., np.newaxis]\<close> when \<open>len(img.shape) == 2\<close>\<close>

definition add_channel_axis :: "'a image \<Rightarrow> 'a list list list" where
  "add_channel_axis r = (case r of Raw2 g \<Rightarrow> map (map (\<lambda>x. [x])) g | Raw3 g \<Rightarrow> g)"

text \<open>
  \<open>np.min(img, axis = (0,1))\<close> and \<open>np.max(img, axis = (0,1))\<close>: one value per channel,
  taken over all pixels. numpy raises when an axis it reduces over has length 0.
\<close>

definition reduce_axis01 :: "('a \<Rightarrow> 'a \<Rightarrow> 'a) \<Rightarrow> 'a list list list \<Rightarrow> error + 'a list" where
  "reduce_axis01 f im =
     (case concat im of [] \<Rightarrow> Inl ZeroSizeReduction
      | px # pxs \<Rightarrow> Inr (fold (map2 f) pxs px))"

text \<open>
  \<open>img -= mins\<close> and \<open>img /= maxs\<close> broadcast the vector of the channels over the
  pixels.
\<close>

definition normalize_img :: "raw_img \<Rightarrow> error + fval list list list" where
  "normalize_img img_in =
     (let img = add_channel_axis (astype_float32 img_in) in
      case reduce_axis01 f32_min img of Inl e \<Rightarrow> Inl e
      | Inr mins \<Rightarrow>
          (let img1 = map (map (\<lambda>px. map2 f32_sub px mins)) img in
           case reduce_axis01 f32_max img1 of Inl e \<Rightarrow> Inl e
           | Inr maxs \<Rightarrow> Inr (map (map (\<lambda>px. map2 f32_div px maxs)) img1)))"

subsection \<open>\<open>__center_of_mass_as_int\<close>\<close>

text \<open>
  \<open>np.sum(img)\<close> counts the true cells; \<open>np.sum(img, axis = 1).dot(np.arange(d0))\<close>
  weighs the count of each row by the row index, \<open>np.sum(img, axis = 0).dot(np.arange(d1))\<close>
  weighs the count of each column by the column index. Both are integers. The quotient
  and the sum with \<open>.5\<close> are float64 numbers; they are taken here as the exact
  rationals, which give the same integer as long as the image has fewer than \<open>2 ^ 16\<close>
  rows and columns (the distance of the exact sum to the next integer is at least
  \<open>1 / (2 * s)\<close>, more than the two rounding errors). \<open>int\<close> truncates towards zero and
  raises on NaN, which is what \<open>0 / 0\<close> gives for a mask without a true cell.
\<close>

definition count_true :: "bool list \<Rightarrow> int" where
  "count_true r = int (length (filter id r))"

definition weighted :: "int list \<Rightarrow> int" where
  "weighted cs = sum_list (map2 (*) cs (map int [0..<length cs]))"

definition row_moment :: "bool list list \<Rightarrow> int" where
  "row_moment m = weighted (map count_true m)"

definition col_moment :: "bool list list \<Rightarrow> int" where
  "col_moment m = sum_list (map (\<lambda>r. weighted (map (\<lambda>b. if b then 1 else 0) r)) m)"

definition py_int :: "rat \<Rightarrow> int" where
  "py_int x = (if 0 \<le> x then \<lfloor>x\<rfloor> else \<lceil>x\<rceil>)"

definition center_of_mass_as_int :: "bool list list \<Rightarrow> error + int \<times> int" where
  "center_of_mass_as_int m =
     (let s = sum_list (map count_true m) in
      if s = 0 then Inl NanToInteger
      else Inr (py_int (of_int (row_moment m) / of_int s + 1 / 2),
                py_int (of_int (col_moment m) / of_int s + 1 / 2)))"

subsection \<open>\<open>__is_within\<close>\<close>

definition is_within :: "int \<times> int \<Rightarrow> int \<times> int \<times> int \<times> int \<Rightarrow> bool" where
  "is_within coord rect =
     (case rect of (r0, r1, r2, r3) \<Rightarrow>
        fst coord \<ge> r0 \<and> fst coord < r0 + r2 \<and> snd coord \<ge> r1 \<and> snd coord < r1 + r3)"

subsection \<open>\<open>create_patches\<close>\<close>

record patch =
  coordinate :: "int \<times> int"
  data :: "fval list list list"
  label :: "nat list list option"

text \<open>
  \<open>np.unique(a)\<close> is the sorted list of the distinct values of \<open>a\<close>; \<open>[1:]\<close> drops its
  first element, whatever it is, and is empty on an array of at most one value.
\<close>

definition np_unique :: "int list list \<Rightarrow> int list" where
  "np_unique g = sort (remdups (concat g))"

definition indices_of :: "int list list \<Rightarrow> int list" where
  "indices_of marker = tl (np_unique marker)"

text \<open>\<open>sorted((0, x, hi))[1]\<close>: the middle one of three values.\<close>

definition sorted_middle :: "int \<Rightarrow> int \<Rightarrow> int" where
  "sorted_middle x hi = sort [0, x, hi] ! 1"

definition eq_mask :: "int \<Rightarrow> int list list \<Rightarrow> bool list list" where
  "eq_mask ind g = map (map (\<lambda>v. v = ind)) g"

definition bool_to_float :: "bool \<Rightarrow> fval" where
  "bool_to_float b = Num (if b then 1 else 0)"

definition bool_to_uint8 :: "bool \<Rightarrow> nat" where
  "bool_to_uint8 b = (if b then 1 else 0)"

text \<open>
  \<open>np.concatenate((p1, p2[...,np.newaxis]), axis = 2)\<close> appends the mask value to every
  pixel. Both crops use the same window on arrays that \<open>__init__\<close> found of equal shape.
\<close>

definition concatenate_mask :: "fval list list list \<Rightarrow> bool list list \<Rightarrow> fval list list list" where
  "concatenate_mask p1 p2 = map2 (map2 (\<lambda>px b. px @ [bool_to_float b])) p1 p2"

text \<open>
  The body of the loop over \<open>indices\<close>, for one object \<open>ind\<close>. \<open>np.round\<close> leaves the
  two integers of the centroid as they are. \<open>//\<close> is \<open>div\<close>, which rounds down on \<open>int\<close>.
  \<open>np.round\<close> returns the centroid as 64-bit integers, so \<open>c0 - self.crop_size // 2\<close> is a
  64-bit subtraction in the source. Here it is the subtraction of \<open>int\<close>, which is the same
  value whenever the crop size is between 0 and the size of the image: the centroid is then
  below the size of the image and the difference is far inside the 64-bit range. For a crop
  size outside the 64-bit range, or one whose half is so, the source wraps or raises, and
  this definition does not follow it; the properties below that state the stored window
  of every object take the crop size between 0 and \<open>min h w\<close>.
\<close>

definition make_patch ::
  "fval list list list \<Rightarrow> int list list \<Rightarrow> int list list option \<Rightarrow> int \<Rightarrow> int \<Rightarrow> error + patch" where
  "make_patch img marker_img label_img crop_size ind =
     (let d0 = int (length marker_img); d1 = int (shape1 marker_img) in
      case center_of_mass_as_int (eq_mask ind marker_img) of Inl e \<Rightarrow> Inl e
      | Inr (m0, m1) \<Rightarrow>
          (let c0 = sorted_middle (m0 - crop_size div 2) (d0 - crop_size);
               c1 = sorted_middle (m1 - crop_size div 2) (d1 - crop_size);
               data_patch_1 = crop c0 c1 crop_size img;
               data_patch_2 = eq_mask ind (crop c0 c1 crop_size marker_img);
               data_patch = concatenate_mask data_patch_1 data_patch_2
           in Inr \<lparr> coordinate = (c0, c1), data = data_patch,
                    label = map_option
                      (\<lambda>l. map (map bool_to_uint8) (eq_mask ind (crop c0 c1 crop_size l)))
                      label_img \<rparr>))"

text \<open>
  \<open>patch_set\<close> is a \<open>dict\<close>: an assignment to a new key appends it, an assignment to an
  old key keeps its place. That is \<open>AList.update\<close> on the list of the items.
\<close>

fun patches_loop ::
  "fval list list list \<Rightarrow> int list list \<Rightarrow> int list list option \<Rightarrow> int \<Rightarrow>
   int list \<Rightarrow> (int \<times> patch) list \<Rightarrow> error + (int \<times> patch) list" where
  "patches_loop img marker_img label_img crop_size [] ps = Inr ps"
| "patches_loop img marker_img label_img crop_size (ind # inds) ps =
     (case make_patch img marker_img label_img crop_size ind of Inl e \<Rightarrow> Inl e
      | Inr p \<Rightarrow> patches_loop img marker_img label_img crop_size inds (AList.update ind p ps))"

definition create_patches ::
  "fval list list list \<Rightarrow> int list list \<Rightarrow> int list list option \<Rightarrow> int \<Rightarrow>
   error + (int \<times> patch) list" where
  "create_patches img marker_img label_img crop_size =
     patches_loop img marker_img label_img crop_size (indices_of marker_img) []"

subsection \<open>\<open>__init__\<close>\<close>

record dataset =
  img :: "fval list list list"
  marker_img :: "int list list"
  label_img :: "int list list option"
  crop_size :: int
  patch_set :: "(int \<times> patch) list"

definition shapes_differ :: "raw_img \<Rightarrow> int list list \<Rightarrow> int list list option \<Rightarrow> bool" where
  "shapes_differ data_img marker_in label_in =
     (raw_shape data_img \<noteq> shape2 marker_in \<or>
      (case label_in of None \<Rightarrow> False | Some l \<Rightarrow> raw_shape data_img \<noteq> shape2 l))"

definition Dataset_init ::
  "raw_img \<Rightarrow> int list list \<Rightarrow> int list list option \<Rightarrow> int \<Rightarrow> error + dataset" where
  "Dataset_init data_img marker_in label_in size_in =
     (if shapes_differ data_img marker_in label_in then Inl ImageSizeMismatch
      else case normalize_img data_img of Inl e \<Rightarrow> Inl e
      | Inr im \<Rightarrow>
          (case create_patches im marker_in label_in size_in of Inl e \<Rightarrow> Inl e
           | Inr ps \<Rightarrow> Inr \<lparr> img = im, marker_img = marker_in, label_img = label_in,
                             crop_size = size_in, patch_set = ps \<rparr>))"

subsection \<open>\<open>generator\<close> and \<open>generator_with_label\<close>\<close>

text \<open>
  A generator is modelled by the list of what it yields when it is run to its end, or by
  the error it raises. \<open>generator\<close> yields the stored tuples in the order of the keys.
\<close>

definition generator :: "dataset \<Rightarrow> patch list" where
  "generator ds = map snd (patch_set ds)"

fun unpack3 :: "patch list \<Rightarrow> error + (fval list list list \<times> nat list list) list" where
  "unpack3 [] = Inr []"
| "unpack3 (p # ps) =
     (case label p of None \<Rightarrow> Inl NotEnoughValues
      | Some l \<Rightarrow> (case unpack3 ps of Inl e \<Rightarrow> Inl e | Inr r \<Rightarrow> Inr ((data p, l) # r)))"

definition generator_with_label ::
  "dataset \<Rightarrow> error + (fval list list list \<times> nat list list) list" where
  "generator_with_label ds =
     (if label_img ds = None then Inl LabelNotSet
      else unpack3 (map snd (patch_set ds)))"

subsection \<open>\<open>generator_within_area\<close>\<close>

text \<open>
  The random source is the sequence of the raw numbers it will produce.
  \<open>rng.integers(high)\<close> returns a number of \<open>[0, high)\<close> and raises when there is none.
\<close>

type_synonym rng = "nat \<Rightarrow> nat"

definition integers :: "rng \<Rightarrow> int \<Rightarrow> error + int \<times> rng" where
  "integers g high =
     (if high \<le> 0 then Inl LowGeHigh else Inr (int (g 0) mod high, (\<lambda>i. g (Suc i))))"

text \<open>\<open>tf.stack\<close> puts tensors of one shape on a new leading axis; no tensor gives no entry.\<close>

definition tf_stack :: "'a list list list list \<Rightarrow> error + 'a list list list list" where
  "tf_stack ts =
     (case ts of [] \<Rightarrow> Inr []
      | t # _ \<Rightarrow> if list_all (\<lambda>u. shape3 u = shape3 t) ts then Inr ts
                 else Inl StackShapeMismatch)"

text \<open>
  \<open>np.array(coords)\<close> of a list of pairs has shape \<open>(n, 2)\<close>, and shape \<open>(0,)\<close> when the
  list is empty. numpy broadcasts two shapes from their last axes on: two lengths fit when
  they are equal or one of them is 1.
\<close>

definition np_array_shape :: "(int \<times> int) list \<Rightarrow> nat list" where
  "np_array_shape coords = (if coords = [] then [0] else [length coords, 2])"

fun broadcastable :: "nat list \<Rightarrow> nat list \<Rightarrow> bool" where
  "broadcastable (a # as) (b # bs) = ((a = b \<or> a = 1 \<or> b = 1) \<and> broadcastable as bs)"
| "broadcastable _ _ = True"

definition subtract_anchor :: "(int \<times> int) list \<Rightarrow> int \<times> int \<Rightarrow> error + (int \<times> int) list" where
  "subtract_anchor coords a =
     (if broadcastable (rev (np_array_shape coords)) (rev [2])
      then Inr (map (\<lambda>c. (fst c - fst a, snd c - snd a)) coords)
      else Inl BroadcastMismatch)"

text \<open>
  One round of the \<open>while True\<close> loop. The keys of a \<open>dict\<close> are distinct, so the items
  that \<open>self.patch_set[k]\<close> finds for the keys \<open>k\<close> that pass the filter are the items of
  \<open>patch_set\<close> that pass it, in their order. The round returns what the generator yields,
  the stack and the relative coordinates, and with it the anchor it drew and the random
  source after the two draws. \<open>rng\<close> is always given: the module's own generator is one
  more random source.
\<close>

definition selected :: "dataset \<Rightarrow> int \<times> int \<Rightarrow> int \<Rightarrow> patch list" where
  "selected ds a area_size =
     map snd (filter (\<lambda>kp. is_within (coordinate (snd kp)) (fst a, snd a, area_size, area_size))
                (patch_set ds))"

definition within_area_round ::
  "dataset \<Rightarrow> rng \<Rightarrow> int \<Rightarrow>
   error + (fval list list list list \<times> (int \<times> int) list) \<times> (int \<times> int) \<times> rng" where
  "within_area_round ds g area_size =
     (let d0 = int (length (marker_img ds)); d1 = int (shape1 (marker_img ds)) in
      case integers g (d0 - area_size - crop_size ds) of Inl e \<Rightarrow> Inl e
      | Inr (a0, g1) \<Rightarrow>
      (case integers g1 (d1 - area_size - crop_size ds) of Inl e \<Rightarrow> Inl e
       | Inr (a1, g2) \<Rightarrow>
       (let all_patches = selected ds (a0, a1) area_size;
            coords = map coordinate all_patches in
        case tf_stack (map data all_patches) of Inl e \<Rightarrow> Inl e
        | Inr stacked \<Rightarrow>
        (case subtract_anchor coords (a0, a1) of Inl e \<Rightarrow> Inl e
         | Inr rel \<Rightarrow> Inr ((stacked, rel), (a0, a1), g2)))))"

text \<open>
  The generator never ends by itself; the caller takes as many elements as it wants.
  \<open>generator_within_area ds g area_size n\<close> is the list of the first \<open>n\<close> elements, or
  the error that one of the first \<open>n\<close> rounds raises.
\<close>

fun generator_within_area ::
  "dataset \<Rightarrow> rng \<Rightarrow> int \<Rightarrow> nat \<Rightarrow>
   error + (fval list list list list \<times> (int \<times> int) list) list" where
  "generator_within_area ds g area_size 0 = Inr []"
| "generator_within_area ds g area_size (Suc n) =
     (case within_area_round ds g area_size of Inl e \<Rightarrow> Inl e
      | Inr (y, a, g') \<Rightarrow>
          (case generator_within_area ds g' area_size n of Inl e \<Rightarrow> Inl e
           | Inr ys \<Rightarrow> Inr (y # ys)))"

subsection \<open>Notions used by the properties\<close>

text \<open>The values of channel \<open>k\<close> of a three-dimensional array, pixel after pixel.\<close>

definition channel :: "nat \<Rightarrow> 'a list list list \<Rightarrow> 'a list" where
  "channel k im = map (\<lambda>px. px ! k) (concat im)"

text \<open>The number of a finite float32 value.\<close>

fun num_of :: "fval \<Rightarrow> rat" where
  "num_of (Num a) = a"
| "num_of v = 0"

text \<open>The number of scalar entries of a three-dimensional array.\<close>

definition elements :: "'a list list list \<Rightarrow> nat" where
  "elements t = length (concat (concat t))"

text \<open>
  A raw image of height \<open>h\<close>, width \<open>w\<close> and \<open>c\<close> channels: two-dimensional with one
  implicit channel, or three-dimensional with a trailing channel axis.
\<close>

definition raw_grid :: "nat \<Rightarrow> nat \<Rightarrow> nat \<Rightarrow> raw_img \<Rightarrow> bool" where
  "raw_grid h w c r =
     (case r of Raw2 g \<Rightarrow> c = 1 \<and> is_grid h w g | Raw3 g \<Rightarrow> is_grid3 h w c g)"



text \<open>
  The normalisation of one channel as the specification words it: subtract the minimum of
  the channel, then divide by the maximum of the differences. It is written from the
  specification, on the list of the float32 values of the channel, and is compared with
  what \<open>normalize_img\<close> computes.
\<close>

definition spec_normalize_channel :: "fval list \<Rightarrow> fval list" where
  "spec_normalize_channel vs =
     (let mn = fold f32_min (tl vs) (hd vs);
          sub = map (\<lambda>v. f32_sub v mn) vs;
          mx = fold f32_max (tl sub) (hd sub)
      in map (\<lambda>v. f32_div v mx) sub)"

subsection \<open>Example inputs\<close>

text \<open>A 3 x 4 image with two objects and a label image, cut with crop size 2.\<close>

definition demo_raw :: raw_img where
  "demo_raw = Raw2 [[1, 2, 3, 4], [5, 6, 7, 8], [9, 8, 7, 6]]"

definition demo_marker :: "int list list" where
  "demo_marker = [[0, 1, 1, 0], [0, 0, 0, 2], [0, 0, 0, 2]]"

definition demo_label :: "int list list" where
  "demo_label = [[0, 1, 0, 0], [0, 0, 0, 2], [0, 0, 2, 2]]"

definition demo_img :: "fval list list list" where
  "demo_img =
     [[[Num 0], [Num (1 / 8)], [Num (1 / 4)], [Num (3 / 8)]],
      [[Num (1 / 2)], [Num (5 / 8)], [Num (3 / 4)], [Num (7 / 8)]],
      [[Num 1], [Num (7 / 8)], [Num (3 / 4)], [Num (5 / 8)]]]"

definition demo_patch1 :: patch where
  "demo_patch1 =
     \<lparr> coordinate = (0, 1),
       data = [[[Num (1 / 8), Num 1], [Num (1 / 4), Num 1]],
               [[Num (5 / 8), Num 0], [Num (3 / 4), Num 0]]],
       label = Some [[1, 0], [0, 0]] \<rparr>"

definition demo_patch2 :: patch where
  "demo_patch2 =
     \<lparr> coordinate = (1, 2),
       data = [[[Num (3 / 4), Num 0], [Num (7 / 8), Num 1]],
               [[Num (3 / 4), Num 0], [Num (5 / 8), Num 1]]],
       label = Some [[0, 1], [1, 1]] \<rparr>"

definition demo_dataset :: dataset where
  "demo_dataset =
     \<lparr> img = demo_img, marker_img = demo_marker, label_img = Some demo_label,
       crop_size = 2, patch_set = [(1, demo_patch1), (2, demo_patch2)] \<rparr>"

text \<open>A 2 x 2 image, a marker without a background pixel and a marker with one object.\<close>

definition small_raw :: raw_img where
  "small_raw = Raw2 [[1, 2], [3, 5]]"

definition small_img :: "fval list list list" where
  "small_img = [[[Num 0], [Num (1 / 4)]], [[Num (1 / 2)], [Num 1]]]"

definition full_marker :: "int list list" where
  "full_marker = [[1, 2], [2, 1]]"

definition corner_marker :: "int list list" where
  "corner_marker = [[0, 1], [0, 0]]"




text \<open>A 6 x 6 image with three objects, cut with crop size 2, and the same image
  as \<open>demo_dataset\<close> constructed without a label image.\<close>

definition wide_raw :: raw_img where
  "wide_raw = Raw2 [[0, 1, 2, 3, 4, 5], [1, 2, 3, 4, 5, 6], [2, 3, 4, 5, 6, 7],
                    [3, 4, 5, 6, 7, 8], [4, 5, 6, 7, 8, 8], [5, 6, 7, 8, 8, 8]]"

definition wide_marker :: "int list list" where
  "wide_marker = [[0, 0, 0, 0, 0, 0], [0, 1, 0, 0, 0, 0], [0, 3, 0, 0, 0, 0],
                  [0, 0, 0, 0, 0, 0], [0, 0, 0, 0, 2, 0], [0, 0, 0, 0, 0, 0]]"

definition wide_img :: "fval list list list" where
  "wide_img =
     [[[Num 0], [Num (1 / 8)], [Num (1 / 4)], [Num (3 / 8)], [Num (1 / 2)], [Num (5 / 8)]],
      [[Num (1 / 8)], [Num (1 / 4)], [Num (3 / 8)], [Num (1 / 2)], [Num (5 / 8)], [Num (3 / 4)]],
      [[Num (1 / 4)], [Num (3 / 8)], [Num (1 / 2)], [Num (5 / 8)], [Num (3 / 4)], [Num (7 / 8)]],
      [[Num (3 / 8)], [Num (1 / 2)], [Num (5 / 8)], [Num (3 / 4)], [Num (7 / 8)], [Num 1]],
      [[Num (1 / 2)], [Num (5 / 8)], [Num (3 / 4)], [Num (7 / 8)], [Num 1], [Num 1]],
      [[Num (5 / 8)], [Num (3 / 4)], [Num (7 / 8)], [Num 1], [Num 1], [Num 1]]]"

definition wide_data1 :: "fval list list list" where
  "wide_data1 = [[[Num 0, Num 0], [Num (1 / 8), Num 0]],
                 [[Num (1 / 8), Num 0], [Num (1 / 4), Num 1]]]"

definition wide_data2 :: "fval list list list" where
  "wide_data2 = [[[Num (3 / 4), Num 0], [Num (7 / 8), Num 0]],
                 [[Num (7 / 8), Num 0], [Num 1, Num 1]]]"

definition wide_data3 :: "fval list list list" where
  "wide_data3 = [[[Num (1 / 8), Num 0], [Num (1 / 4), Num 0]],
                 [[Num (1 / 4), Num 0], [Num (3 / 8), Num 1]]]"

definition wide_dataset :: dataset where
  "wide_dataset =
     \<lparr> img = wide_img, marker_img = wide_marker, label_img = None, crop_size = 2,
       patch_set =
         [(1, \<lparr> coordinate = (0, 0), data = wide_data1, label = None \<rparr>),
          (2, \<lparr> coordinate = (3, 3), data = wide_data2, label = None \<rparr>),
          (3, \<lparr> coordinate = (1, 0), data = wide_data3, label = None \<rparr>)] \<rparr>"

definition plain_dataset :: dataset where
  "plain_dataset =
     \<lparr> img = demo_img, marker_img = demo_marker, label_img = None, crop_size = 2,
       patch_set = [(1, demo_patch1 \<lparr> label := None \<rparr>), (2, demo_patch2 \<lparr> label := None \<rparr>)] \<rparr>"

text \<open>
  A 100 x 100 marker image with one object of identity 1: a square of \<open>n\<close> rows and
  \<open>n\<close> columns that starts at row 40 and column 40. With \<open>n = 6\<close> the object
  occupies rows 40 to 45 and columns 40 to 45; with \<open>n = 5\<close>, rows and columns 40 to 44.
\<close>

definition object_marker :: "nat \<Rightarrow> int list list" where
  "object_marker n =
     replicate 40 (replicate 100 0) @
     replicate n (replicate 40 0 @ replicate n 1 @ replicate (60 - n) 0) @
     replicate (60 - n) (replicate 100 0)"

text \<open>
  A 64 x 64 mask that is true on the square of \<open>n\<close> rows and columns starting at row
  \<open>a\<close> and column \<open>a\<close>.
\<close>

definition window_mask :: "nat \<Rightarrow> nat \<Rightarrow> bool list list" where
  "window_mask a n =
     replicate a (replicate 64 False) @
     replicate n (replicate a False @ replicate n True @ replicate (64 - a - n) False) @
     replicate (64 - a - n) (replicate 64 False)"

text \<open>A 100 x 100 raw image whose values grow along each row.\<close>

definition ramp :: "rat list list" where
  "ramp = replicate 100 (map of_nat [0..<100])"

text \<open>
  The weighted sum of \<open>weighted\<close> with the indices starting at \<open>k\<close>; it splits over
  \<open>@\<close>, which \<open>weighted\<close> itself does not.
\<close>

definition moment :: "nat \<Rightarrow> int list \<Rightarrow> int" where
  "moment k cs = sum_list (map2 (*) cs (map int [k..<k + length cs]))"

text \<open>
  A 2 x 2 raw image with two channels; a raw image of two different integers that have
  the same float32 value; a raw image whose range is not finite in float32.
\<close>

definition two_channel_raw :: raw_img where
  "two_channel_raw = Raw3 [[[1, 2], [2, 6]], [[3, 4], [5, 10]]]"

definition collapsing_raw :: raw_img where
  "collapsing_raw = Raw2 [[16777216, 16777217]]"

definition overflowing_raw :: raw_img where
  "overflowing_raw = Raw2 [[- (2 ^ 127), 2 ^ 127]]"

section \<open>Supporting lemmas\<close>

subsection \<open>Rounding to float32\<close>

lemma round_half_even_of_int [simp]: "round_half_even (of_int n) = n"
  by (simp add: round_half_even_def)

lemma round_half_even_0 [simp]: "round_half_even 0 = 0"
  using round_half_even_of_int[of 0] by simp

lemma round_half_even_1 [simp]: "round_half_even 1 = 1"
  using round_half_even_of_int[of 1] by simp

lemma round_half_even_numeral [simp]: "round_half_even (numeral n) = numeral n"
  using round_half_even_of_int[of "numeral n"] by simp

lemma round_half_even_mono:
  assumes "x \<le> y" shows "round_half_even x \<le> round_half_even y"
proof (cases "\<lfloor>x\<rfloor> = \<lfloor>y\<rfloor>")
  case True
  then show ?thesis using assms
    by (auto simp: round_half_even_def Let_def)
next
  case False
  with assms have lt: "\<lfloor>x\<rfloor> < \<lfloor>y\<rfloor>" by (simp add: floor_mono order.not_eq_order_implies_strict)
  have "round_half_even x \<le> \<lfloor>x\<rfloor> + 1" by (simp add: round_half_even_def Let_def)
  moreover have "\<lfloor>y\<rfloor> \<le> round_half_even y" by (simp add: round_half_even_def Let_def)
  ultimately show ?thesis using lt by linarith
qed

lemma round_half_even_minus: "round_half_even (- x) = - round_half_even x"
proof (cases "x \<in> \<int>")
  case True
  then obtain n where "x = of_int n" by (auto elim: Ints_cases)
  then show ?thesis by (simp flip: of_int_minus)
next
  case False
  then have "x \<noteq> of_int \<lfloor>x\<rfloor>" by (metis Ints_of_int)
  then have f: "\<lfloor>- x\<rfloor> = - \<lfloor>x\<rfloor> - 1"
    by (simp add: floor_minus ceiling_altdef)
  show ?thesis
    unfolding round_half_even_def Let_def f
    by (auto simp: not_less)
qed

lemma round_half_even_nonneg: "0 \<le> x \<Longrightarrow> 0 \<le> round_half_even x"
  using round_half_even_mono[of 0 x] by simp

lemma ulp_search_range: "k \<le> ulp_search n k y \<and> ulp_search n k y \<le> k + n"
proof (induction n arbitrary: k)
  case 0
  then show ?case by simp
next
  case (Suc n)
  from Suc[of "Suc k"] show ?case by simp
qed

lemma ulp_search_upper: "ulp_search n k y < k + n \<Longrightarrow> y < 2 ^ (ulp_search n k y + 24)"
proof (induction n arbitrary: k)
  case 0 then show ?case by simp
next
  case (Suc n)
  show ?case
  proof (cases "y < 2 ^ (k + 24)")
    case True then show ?thesis by simp
  next
    case False
    with Suc.prems have "ulp_search n (Suc k) y < Suc k + n" by simp
    from Suc.IH[OF this] False show ?thesis by simp
  qed
qed

lemma ulp_search_lower: "k < ulp_search n k y \<Longrightarrow> 2 ^ (ulp_search n k y + 23) \<le> y"
proof (induction n arbitrary: k)
  case 0 then show ?case by simp
next
  case (Suc n)
  show ?case
  proof (cases "y < 2 ^ (k + 24)")
    case True with Suc.prems show ?thesis by simp
  next
    case False
    show ?thesis
    proof (cases "Suc k < ulp_search n (Suc k) y")
      case True
      from Suc.IH[OF this] False show ?thesis by simp
    next
      case False2: False
      with ulp_search_range[of "Suc k" n y] have "ulp_search n (Suc k) y = Suc k" by simp
      with False show ?thesis by (simp add: not_less add.commute)
    qed
  qed
qed

lemma ulp_search_mono: "a \<le> b \<Longrightarrow> ulp_search n k a \<le> ulp_search n k b"
proof (induction n arbitrary: k)
  case 0 then show ?case by simp
next
  case (Suc n)
  then show ?case
    using ulp_search_range[of "Suc k" n b]
    by (auto dest: Suc_leD)
qed

lemma ulp_exponent_minus [simp]: "ulp_exponent (- y) = ulp_exponent y"
  by (simp add: ulp_exponent_def)

lemma round_scaled_minus: "round_scaled (- y) = - round_scaled y"
  by (simp add: round_scaled_def round_half_even_minus)

lemma round_scaled_nonneg: "0 \<le> y \<Longrightarrow> 0 \<le> round_scaled y"
  by (simp add: round_scaled_def round_half_even_nonneg)

lemma round_scaled_mono_nonneg:
  assumes "0 \<le> x" "x \<le> y"
  shows "round_scaled x \<le> round_scaled y"
proof -
  let ?ex = "ulp_exponent x" and ?ey = "ulp_exponent y"
  have le: "?ex \<le> ?ey"
    unfolding ulp_exponent_def using assms by (intro ulp_search_mono) simp
  show ?thesis
  proof (cases "?ex = ?ey")
    case True
    have "x / 2 ^ ?ey \<le> y / 2 ^ ?ey" using assms by (simp add: divide_right_mono)
    then have "round_half_even (x / 2 ^ ?ey) \<le> round_half_even (y / 2 ^ ?ey)"
      by (rule round_half_even_mono)
    then show ?thesis by (simp add: round_scaled_def True)
  next
    case False
    with le have lt: "?ex < ?ey" by simp
    have r: "?ey \<le> 253" using ulp_search_range[of 0 253 "\<bar>y\<bar>"] by (simp add: ulp_exponent_def)
    from lt r have "ulp_search 253 0 \<bar>x\<bar> < 0 + 253" by (simp add: ulp_exponent_def)
    from ulp_search_upper[OF this] assms have ux: "x < 2 ^ (?ex + 24)"
      by (simp add: ulp_exponent_def)
    from lt have "0 < ulp_search 253 0 \<bar>y\<bar>" by (simp add: ulp_exponent_def)
    from ulp_search_lower[OF this] assms have ly: "2 ^ (?ey + 23) \<le> y"
      by (simp add: ulp_exponent_def)
    have "x / 2 ^ ?ex \<le> of_int (2 ^ 24)"
      using ux by (simp add: power_add pos_divide_le_eq)
    then have "round_half_even (x / 2 ^ ?ex) \<le> 2 ^ 24"
      using round_half_even_mono[of "x / 2 ^ ?ex" "of_int (2 ^ 24)"] by simp
    then have "of_int (round_half_even (x / 2 ^ ?ex)) \<le> (2 ^ 24 :: rat)"
      by (metis of_int_le_iff of_int_numeral of_int_power)
    then have a: "round_scaled x \<le> 2 ^ (?ex + 24)"
      by (simp add: round_scaled_def power_add mult.commute)
    have "of_int (2 ^ 23) \<le> y / 2 ^ ?ey"
      using ly by (simp add: power_add pos_le_divide_eq mult.commute)
    then have "2 ^ 23 \<le> round_half_even (y / 2 ^ ?ey)"
      using round_half_even_mono[of "of_int (2 ^ 23)" "y / 2 ^ ?ey"] by simp
    then have "(2 ^ 23 :: rat) \<le> of_int (round_half_even (y / 2 ^ ?ey))"
      by (metis of_int_le_iff of_int_numeral of_int_power)
    then have b: "2 ^ (?ey + 23) \<le> round_scaled y"
      by (simp add: round_scaled_def power_add mult.commute)
    have "(2::rat) ^ (?ex + 24) \<le> 2 ^ (?ey + 23)"
      using lt by (intro power_increasing) auto
    with a b show ?thesis by linarith
  qed
qed

lemma round_scaled_mono:
  assumes "x \<le> y" shows "round_scaled x \<le> round_scaled y"
proof -
  consider "0 \<le> x" | "x < 0" "0 \<le> y" | "y < 0" using assms by linarith
  then show ?thesis
  proof cases
    case 1 with assms show ?thesis by (simp add: round_scaled_mono_nonneg)
  next
    case 2
    then have "0 \<le> round_scaled (- x)" "0 \<le> round_scaled y"
      by (simp_all add: round_scaled_nonneg)
    then show ?thesis by (simp add: round_scaled_minus)
  next
    case 3
    with assms have "round_scaled (- y) \<le> round_scaled (- x)"
      by (intro round_scaled_mono_nonneg) auto
    then show ?thesis by (simp add: round_scaled_minus)
  qed
qed

lemma round_scaled_0 [simp]: "round_scaled 0 = 0"
  by (simp add: round_scaled_def)

lemma ulp_exponent_1: "ulp_exponent 1 = 0"
  by (simp add: ulp_exponent_def eval_nat_numeral)

lemma round_scaled_1 [simp]: "round_scaled 1 = 1"
  by (simp add: round_scaled_def ulp_exponent_1)

lemma ulp_exponent_le: "ulp_exponent y \<le> 253"
  using ulp_search_range[of 0 253 "\<bar>y\<bar>"] by (simp add: ulp_exponent_def)

lemma ulp_exponent_upper: "ulp_exponent y < 253 \<Longrightarrow> \<bar>y\<bar> < 2 ^ (ulp_exponent y + 24)"
  using ulp_search_upper[of 253 0 "\<bar>y\<bar>"] by (simp add: ulp_exponent_def)

lemma ulp_exponent_lower: "0 < ulp_exponent y \<Longrightarrow> 2 ^ (ulp_exponent y + 23) \<le> \<bar>y\<bar>"
  using ulp_search_lower[of 0 253 "\<bar>y\<bar>"] by (simp add: ulp_exponent_def)

lemma ulp_exponent_unique:
  assumes "k \<le> 253" "\<bar>y\<bar> < 2 ^ (k + 24)" "k = 0 \<or> 2 ^ (k + 23) \<le> \<bar>y\<bar>"
  shows "ulp_exponent y = k"
proof (rule ccontr)
  assume ne: "ulp_exponent y \<noteq> k"
  show False
  proof (cases "ulp_exponent y < k")
    case True
    with assms(1) have "ulp_exponent y < 253" by simp
    then have u: "\<bar>y\<bar> < 2 ^ (ulp_exponent y + 24)" by (rule ulp_exponent_upper)
    from True assms(3) have l: "2 ^ (k + 23) \<le> \<bar>y\<bar>" by auto
    have "(2::rat) ^ (ulp_exponent y + 24) \<le> 2 ^ (k + 23)"
      using True by (intro power_increasing) auto
    with u l show False by linarith
  next
    case False
    with ne have gt: "k < ulp_exponent y" by simp
    then have "0 < ulp_exponent y" by simp
    then have l: "2 ^ (ulp_exponent y + 23) \<le> \<bar>y\<bar>" by (rule ulp_exponent_lower)
    have "(2::rat) ^ (k + 24) \<le> 2 ^ (ulp_exponent y + 23)"
      using gt by (intro power_increasing) auto
    with l assms(2) show False by linarith
  qed
qed

lemma round_scaled_int:
  assumes "\<bar>n\<bar> \<le> 2 ^ 24" "j \<le> 252"
  shows "round_scaled (of_int n * 2 ^ j) = of_int n * 2 ^ j"
proof (cases "\<bar>n\<bar> = 2 ^ 24")
  case True
  let ?y = "rat_of_int n * 2 ^ j"
  have ay: "\<bar>?y\<bar> = 2 ^ (j + 24)"
    using True by (simp add: abs_mult power_add flip: of_int_abs)
  have "ulp_exponent ?y = Suc j"
    by (rule ulp_exponent_unique) (use assms(2) ay in \<open>simp_all add: add.commute\<close>)
  moreover from True have "n = 2 ^ 24 \<or> n = - (2 ^ 24)" by linarith
  then have "even n" by auto
  then have h: "rat_of_int n = 2 * of_int (n div 2)"
    by (metis dvd_mult_div_cancel of_int_mult of_int_numeral)
  then have "?y / 2 ^ Suc j = of_int (n div 2)" by simp
  moreover from h have "rat_of_int (n div 2) * 2 ^ Suc j = ?y" by simp
  ultimately show ?thesis by (simp add: round_scaled_def del: power_Suc)
next
  case False
  let ?y = "rat_of_int n * 2 ^ j"
  let ?k = "ulp_exponent ?y"
  from False assms(1) have lt: "\<bar>n\<bar> < 2 ^ 24" by simp
  then have "\<bar>rat_of_int n\<bar> < 2 ^ 24"
    by (metis of_int_abs of_int_less_iff of_int_numeral of_int_power)
  then have ay: "\<bar>?y\<bar> < 2 ^ (j + 24)"
    by (simp add: abs_mult power_add mult.commute)
  have kj: "?k \<le> j"
  proof (rule ccontr)
    assume "\<not> ?k \<le> j"
    then have gt: "j < ?k" by simp
    then have "2 ^ (?k + 23) \<le> \<bar>?y\<bar>" by (intro ulp_exponent_lower) simp
    moreover have "(2::rat) ^ (j + 24) \<le> 2 ^ (?k + 23)"
      using gt by (intro power_increasing) auto
    ultimately show False using ay by linarith
  qed
  then have e1: "?y / 2 ^ ?k = rat_of_int n * 2 ^ (j - ?k)"
    by (simp add: power_diff)
  have e2: "rat_of_int n * 2 ^ (j - ?k) = of_int (n * 2 ^ (j - ?k))" by simp
  have "round_half_even (?y / 2 ^ ?k) = n * 2 ^ (j - ?k)"
    by (simp only: e1 e2 round_half_even_of_int)
  then have "round_scaled ?y = of_int (n * 2 ^ (j - ?k)) * 2 ^ ?k"
    by (simp only: round_scaled_def)
  also have "\<dots> = rat_of_int n * (2 ^ (j - ?k) * 2 ^ ?k)"
    by (simp only: e2[symmetric] mult.assoc)
  also have "\<dots> = ?y"
    using kj by (simp only: power_add[symmetric]) simp
  finally show ?thesis .
qed

lemma round_scaled_Ints: "round_scaled y \<in> \<int>"
  by (simp add: round_scaled_def)

lemma f32_scale_pos [simp]: "0 < f32_scale" "0 \<le> f32_scale" "f32_scale \<noteq> 0" "\<not> f32_scale \<le> 0"
  by (simp_all add: f32_scale_def)

lemma round_scaled_pow276: "round_scaled (2 ^ 127 * f32_scale) = 2 ^ 127 * f32_scale"
proof -
  have e: "2 ^ 127 * f32_scale = rat_of_int (2 ^ 24) * 2 ^ 252"
    by (simp add: f32_scale_def)
  show ?thesis unfolding e by (rule round_scaled_int) simp_all
qed

lemma round32_NumD:
  "round32 x = Num a \<Longrightarrow> a = round_scaled (x * f32_scale) / f32_scale"
  by (auto simp: round32_def Let_def split: if_splits)

lemma round32_Num:
  assumes "\<bar>x\<bar> \<le> 2 ^ 127"
  shows "\<exists>a. round32 x = Num a \<and> \<bar>a\<bar> \<le> 2 ^ 127"
proof -
  define B :: rat where "B = 2 ^ 127"
  define C :: rat where "C = 2 ^ 128"
  have BC: "0 < B" "B < C" by (simp_all add: B_def C_def)
  let ?r = "round_scaled (x * f32_scale)"
  have x: "x \<le> B" "- B \<le> x" using assms by (simp_all only: B_def abs_le_iff) linarith+
  have "x * f32_scale \<le> B * f32_scale" "- B * f32_scale \<le> x * f32_scale"
    using x by (simp_all only: mult_right_mono f32_scale_pos)
  then have "?r \<le> round_scaled (B * f32_scale)" "round_scaled (- (B * f32_scale)) \<le> ?r"
    by (simp_all only: round_scaled_mono minus_mult_left)
  then have b: "?r \<le> B * f32_scale" "- (B * f32_scale) \<le> ?r"
    by (simp_all only: round_scaled_minus round_scaled_pow276 B_def)
  have "B * f32_scale < C * f32_scale" using BC by (simp only: mult_strict_right_mono f32_scale_pos)
  with b have "\<not> C * f32_scale \<le> ?r" "\<not> ?r \<le> - (C * f32_scale)" by linarith+
  then have "round32 x = Num (?r / f32_scale)"
    unfolding round32_def Let_def C_def by (simp only: if_False)
  moreover have "?r / f32_scale \<le> B" "- B \<le> ?r / f32_scale"
    using b by (simp_all add: pos_divide_le_eq pos_le_divide_eq)
  then have "\<bar>?r / f32_scale\<bar> \<le> B"
    by (intro abs_leI) linarith+
  ultimately show ?thesis unfolding B_def by blast
qed

lemma round32_exact:
  assumes "\<bar>n\<bar> \<le> 2 ^ 24" "e \<le> 149"
  shows "round32 (of_int n / 2 ^ e) = Num (of_int n / 2 ^ e)"
proof -
  let ?y = "rat_of_int n * 2 ^ (149 - e)"
  have y: "rat_of_int n / 2 ^ e * f32_scale = ?y"
    using assms(2) by (simp add: f32_scale_def power_diff)
  have r: "round_scaled ?y = ?y"
    by (rule round_scaled_int) (use assms in simp_all)
  have "\<bar>rat_of_int n\<bar> \<le> 2 ^ 24"
    using assms(1) by (metis of_int_abs of_int_le_iff of_int_numeral of_int_power)
  moreover have "(2::rat) ^ (149 - e) \<le> 2 ^ 149" by (intro power_increasing) auto
  ultimately have "\<bar>rat_of_int n\<bar> * 2 ^ (149 - e) \<le> 2 ^ 24 * 2 ^ 149"
    by (intro mult_mono) auto
  moreover have "(2::rat) ^ 24 * 2 ^ 149 < 2 ^ 128 * f32_scale"
    by (simp add: f32_scale_def)
  moreover have "\<bar>?y\<bar> = \<bar>rat_of_int n\<bar> * 2 ^ (149 - e)"
    by (simp add: abs_mult)
  ultimately have "\<bar>?y\<bar> < 2 ^ 128 * f32_scale"
    by linarith
  then have "\<not> 2 ^ 128 * f32_scale \<le> ?y" "\<not> ?y \<le> - (2 ^ 128 * f32_scale)"
    by (simp_all only: abs_less_iff) linarith+
  moreover have "?y / f32_scale = rat_of_int n / 2 ^ e"
    unfolding y[symmetric] by simp
  ultimately show ?thesis
    unfolding round32_def Let_def y r by (simp only: if_False)
qed

lemma round32_small:
  assumes "x * 2 ^ 20 \<in> \<int>" "\<bar>x\<bar> \<le> 16"
  shows "round32 x = Num x"
proof -
  from assms(1) obtain n where n: "x * 2 ^ 20 = of_int n" by (auto elim: Ints_cases)
  then have x: "x = of_int n / 2 ^ 20" by (simp add: field_simps)
  have "\<bar>rat_of_int n\<bar> = \<bar>x\<bar> * 2 ^ 20" by (simp add: n[symmetric] abs_mult)
  also have "\<dots> \<le> 16 * 2 ^ 20" using assms(2) by simp
  finally have "\<bar>rat_of_int n\<bar> \<le> rat_of_int (2 ^ 24)" by simp
  then have "\<bar>n\<bar> \<le> 2 ^ 24"
    by (simp only: of_int_abs[symmetric] of_int_le_iff)
  then show ?thesis unfolding x by (rule round32_exact) simp
qed

lemma round32_0 [simp]: "round32 0 = Num 0"
  by (simp add: round32_def)

lemma round32_1 [simp]: "round32 1 = Num 1"
  using round32_exact[of 1 0] by simp

lemma round32_mono_Num:
  assumes "x \<le> y" "round32 x = Num a" "round32 y = Num b"
  shows "a \<le> b"
proof -
  have "round_scaled (x * f32_scale) \<le> round_scaled (y * f32_scale)"
    using assms(1) by (intro round_scaled_mono) simp
  then show ?thesis
    unfolding round32_NumD[OF assms(2)] round32_NumD[OF assms(3)]
    by (rule divide_right_mono) simp
qed

lemma round32_grid:
  assumes "round32 x = Num a" shows "a * f32_scale \<in> \<int>"
proof -
  from round32_NumD[OF assms] have "a * f32_scale = round_scaled (x * f32_scale)" by simp
  then show ?thesis by (simp only: round_scaled_Ints)
qed

lemma round32_diff_pos:
  assumes "a * f32_scale \<in> \<int>" "b * f32_scale \<in> \<int>" "b < a" "round32 (a - b) = Num r"
  shows "0 < r"
proof -
  have e: "(a - b) * f32_scale = a * f32_scale - b * f32_scale" by (simp add: algebra_simps)
  with assms(1,2) have "(a - b) * f32_scale \<in> \<int>" by simp
  then obtain n where n: "(a - b) * f32_scale = of_int n" by (auto elim: Ints_cases)
  have "0 < (a - b) * f32_scale" using assms(3) by simp
  then have "0 < n" unfolding n by simp
  then have "1 \<le> rat_of_int n" by simp
  then have "round_scaled 1 \<le> round_scaled (of_int n)" by (rule round_scaled_mono)
  then have "1 \<le> round_scaled ((a - b) * f32_scale)" by (simp only: n round_scaled_1)
  then show ?thesis
    unfolding round32_NumD[OF assms(4)] by simp
qed

lemma round32_unit:
  assumes "0 \<le> s" "s \<le> R" "0 < R"
  shows "\<exists>q. round32 (s / R) = Num q \<and> 0 \<le> q \<and> q \<le> 1"
proof -
  have q: "0 \<le> s / R" "s / R \<le> 1" using assms by simp_all
  then have "\<bar>s / R\<bar> \<le> 2 ^ 127" by simp
  from round32_Num[OF this] obtain v where v: "round32 (s / R) = Num v" by blast
  from round32_mono_Num[OF q(1) round32_0 v] round32_mono_Num[OF q(2) v round32_1] v
  show ?thesis by blast
qed

lemma f32_min_Num [simp]: "f32_min (Num a) (Num b) = Num (min a b)"
  by (simp add: f32_min_def min_def)

lemma f32_max_Num [simp]: "f32_max (Num a) (Num b) = Num (max b a)"
  by (simp add: f32_max_def max_def)

lemma fold_f32_min_Num: "fold f32_min (map Num as) (Num a) = Num (Min (set (a # as)))"
proof -
  have "fold f32_min (map Num as) (Num a) = Num (fold min as a)"
    by (induction as arbitrary: a) simp_all
  then show ?thesis using Min.set_eq_fold[of a as] by simp
qed

lemma fold_f32_max_Num: "fold f32_max (map Num as) (Num a) = Num (Max (set (a # as)))"
proof -
  have "fold f32_max (map Num as) (Num a) = Num (fold max as a)"
    by (induction as arbitrary: a) (simp_all add: max.commute)
  then show ?thesis using Max.set_eq_fold[of a as] by simp
qed

text \<open>
  One channel: the float32 values \<open>as\<close>, their minimum subtracted, then divided by the
  maximum of the differences.
\<close>

lemma normalized_channel:
  fixes as :: "rat list"
  assumes ne: "as \<noteq> []"
    and fl: "\<forall>a\<in>set as. \<bar>a\<bar> \<le> 2 ^ 126 \<and> a * f32_scale \<in> \<int>"
    and two: "\<exists>a\<in>set as. \<exists>b\<in>set as. a \<noteq> b"
  defines "vs \<equiv> map Num as"
  defines "mn \<equiv> fold f32_min (tl vs) (hd vs)"
  defines "sub \<equiv> map (\<lambda>v. f32_sub v mn) vs"
  defines "mx \<equiv> fold f32_max (tl sub) (hd sub)"
  defines "res \<equiv> map (\<lambda>v. f32_div v mx) sub"
  shows "Num 0 \<in> set res \<and> Num 1 \<in> set res \<and>
         (\<forall>v\<in>set res. \<exists>q. v = Num q \<and> 0 \<le> q \<and> q \<le> 1)"
proof -
  define m where "m = Min (set as)"
  define M where "M = Max (set as)"
  from ne obtain a0 as' where as: "as = a0 # as'" by (cases as) auto
  have mn: "mn = Num m"
    unfolding mn_def vs_def as m_def by (simp add: fold_f32_min_Num)
  have m_in: "m \<in> set as" and M_in: "M \<in> set as"
    unfolding m_def M_def using ne by (simp_all add: Min_in Max_in)
  have m_le: "\<And>a. a \<in> set as \<Longrightarrow> m \<le> a" and le_M: "\<And>a. a \<in> set as \<Longrightarrow> a \<le> M"
    unfolding m_def M_def by simp_all
  have mM: "m < M"
  proof -
    from two obtain a b where "a \<in> set as" "b \<in> set as" "a \<noteq> b" by blast
    with m_le le_M have "m \<le> a" "a \<le> M" "m \<le> b" "b \<le> M" by auto
    with \<open>a \<noteq> b\<close> show ?thesis by linarith
  qed
  define S where "S a = num_of (round32 (a - m))" for a
  have S: "round32 (a - m) = Num (S a)" if "a \<in> set as" for a
  proof -
    from that m_in fl have "\<bar>a\<bar> \<le> 2 ^ 126" "\<bar>m\<bar> \<le> 2 ^ 126" by auto
    then have "\<bar>a - m\<bar> \<le> 2 ^ 126 + 2 ^ 126" by linarith
    then have "\<bar>a - m\<bar> \<le> 2 ^ 127" by simp
    from round32_Num[OF this] show ?thesis by (auto simp: S_def)
  qed
  have sub: "sub = map Num (map S as)"
    unfolding sub_def vs_def mn by (simp add: S)
  have S_m: "S m = 0" by (simp add: S_def)
  have S_mono: "S a \<le> S b" if "a \<in> set as" "b \<in> set as" "a \<le> b" for a b
    by (rule round32_mono_Num[OF _ S[OF that(1)] S[OF that(2)]]) (use that(3) in simp)
  define R where "R = S M"
  have R_pos: "0 < R"
    unfolding R_def
    by (rule round32_diff_pos[OF _ _ mM S[OF M_in]]) (use fl m_in M_in in auto)
  have S_nonneg: "0 \<le> S a" if "a \<in> set as" for a
    using S_mono[OF m_in that m_le[OF that]] by (simp add: S_m)
  have S_le: "S a \<le> R" if "a \<in> set as" for a
    unfolding R_def using S_mono[OF that M_in le_M[OF that]] .
  have "Max (set (map S as)) = R"
  proof (rule Max_eqI)
    show "finite (set (map S as))" by simp
    show "\<And>y. y \<in> set (map S as) \<Longrightarrow> y \<le> R" using S_le by auto
    show "R \<in> set (map S as)" using M_in by (auto simp: R_def)
  qed
  then have mx: "mx = Num R"
    unfolding mx_def sub as using fold_f32_max_Num[of "map S as'" "S a0"]
    by (simp add: as)
  have res: "res = map (\<lambda>a. round32 (S a / R)) as"
    unfolding res_def sub mx using R_pos by simp
  have "Num 0 \<in> set res"
    unfolding res using m_in by (force simp: S_m image_iff)
  moreover have "Num 1 \<in> set res"
  proof -
    have "round32 (S M / R) = Num 1" using R_pos by (simp add: R_def)
    then show ?thesis unfolding res using M_in by (force simp: image_iff)
  qed
  moreover have "\<forall>v\<in>set res. \<exists>q. v = Num q \<and> 0 \<le> q \<and> q \<le> 1"
    unfolding res using round32_unit[OF S_nonneg S_le R_pos] by auto
  ultimately show ?thesis by blast
qed

subsection \<open>Slices, the window and rectangular arrays\<close>

lemma py_slice_inside:
  assumes "0 \<le> a" "0 \<le> s" "a + s \<le> int (length xs)"
  shows "py_slice a (a + s) xs = take (nat s) (drop (nat a) xs)"
  using assms by (simp add: py_slice_def py_bound_def Let_def min_def)

lemma length_py_slice_inside:
  assumes "0 \<le> a" "0 \<le> s" "a + s \<le> int (length xs)"
  shows "length (py_slice a (a + s) xs) = nat s"
  using assms by (simp add: py_slice_inside)

lemma set_py_slice: "set (py_slice a b xs) \<subseteq> set xs"
  unfolding py_slice_def Let_def
  by (meson set_take_subset set_drop_subset subset_trans)

lemma sorted_middle_median: "sorted_middle x hi = max (min 0 x) (min (max 0 x) hi)"
  by (simp add: sorted_middle_def max_def min_def)

lemma sorted_middle_clamp: "0 \<le> hi \<Longrightarrow> sorted_middle x hi = max 0 (min x hi)"
  by (simp add: sorted_middle_median max_def min_def)

lemma sorted_middle_range: "0 \<le> hi \<Longrightarrow> 0 \<le> sorted_middle x hi \<and> sorted_middle x hi \<le> hi"
  by (simp add: sorted_middle_clamp)

lemma is_grid_crop:
  assumes g: "is_grid h w g" and c: "0 \<le> c0" "0 \<le> c1" "0 \<le> s"
    and b: "c0 + s \<le> int h" "c1 + s \<le> int w"
  shows "is_grid (nat s) (nat s) (crop c0 c1 s g)"
proof -
  from g have lg: "length g = h" and rows: "\<forall>r\<in>set g. length r = w"
    by (simp_all add: is_grid_def list_all_iff)
  have "length (py_slice c0 (c0 + s) g) = nat s"
    using c b lg by (simp add: length_py_slice_inside)
  moreover have "length (py_slice c1 (c1 + s) r) = nat s" if "r \<in> set (py_slice c0 (c0 + s) g)" for r
  proof -
    from that set_py_slice[of c0 "c0 + s" g] have "r \<in> set g" by blast
    with rows have "length r = w" by blast
    with c b show ?thesis by (simp add: length_py_slice_inside)
  qed
  ultimately show ?thesis
    by (simp add: is_grid_def crop_def list_all_iff)
qed

lemma is_grid3_crop:
  assumes g: "is_grid3 h w k g" and c: "0 \<le> c0" "0 \<le> c1" "0 \<le> s"
    and b: "c0 + s \<le> int h" "c1 + s \<le> int w"
  shows "is_grid3 (nat s) (nat s) k (crop c0 c1 s g)"
proof -
  from g have lg: "length g = h" and rows: "\<forall>r\<in>set g. length r = w \<and> (\<forall>px\<in>set r. length px = k)"
    by (simp_all add: is_grid3_def is_grid_def list_all_iff)
  have "length (py_slice c0 (c0 + s) g) = nat s"
    using c b lg by (simp add: length_py_slice_inside)
  moreover have "length (py_slice c1 (c1 + s) r) = nat s \<and> (\<forall>px\<in>set (py_slice c1 (c1 + s) r). length px = k)"
    if "r \<in> set (py_slice c0 (c0 + s) g)" for r
  proof -
    from that set_py_slice[of c0 "c0 + s" g] have "r \<in> set g" by blast
    with rows have r: "length r = w" "\<forall>px\<in>set r. length px = k" by blast+
    from r(1) c b have "length (py_slice c1 (c1 + s) r) = nat s"
      by (simp add: length_py_slice_inside)
    moreover from r(2) set_py_slice[of c1 "c1 + s" r] have "\<forall>px\<in>set (py_slice c1 (c1 + s) r). length px = k"
      by blast
    ultimately show ?thesis by blast
  qed
  ultimately show ?thesis
    by (simp add: is_grid3_def is_grid_def crop_def list_all_iff)
qed

lemma is_grid_eq_mask: "is_grid h w g \<Longrightarrow> is_grid h w (eq_mask i g)"
  by (simp add: is_grid_def eq_mask_def list_all_iff)

lemma is_grid3_concatenate_mask:
  assumes "is_grid3 h w k p1" "is_grid h w p2"
  shows "is_grid3 h w (Suc k) (concatenate_mask p1 p2)"
proof -
  have "is_grid w (Suc k) (map2 (\<lambda>px b. px @ [bool_to_float b]) r m)"
    if "is_grid w k r" "length m = w" for r :: "fval list list" and m
    using that by (auto simp: is_grid_def list_all_iff dest: set_zip_leftD)
  then show ?thesis
    using assms
    by (auto simp: is_grid3_def is_grid_def[of h w p2] concatenate_mask_def list_all_iff
        dest!: set_zip_leftD set_zip_rightD elim!: in_set_zipE)
qed

subsection \<open>Normalisation, centroid and the loop over the objects\<close>

lemma length_fold_map2:
  assumes "\<forall>p\<in>set pxs. length p = k" "length px = k"
  shows "length (fold (map2 f) pxs px) = k"
  using assms by (induction pxs arbitrary: px) simp_all

lemma reduce_axis01_Inr:
  assumes "is_grid3 h w k im" "0 < h" "0 < w"
  shows "\<exists>v. reduce_axis01 f im = Inr v \<and> length v = k"
proof -
  from assms obtain r rs where im: "im = r # rs" by (cases im) (auto simp: is_grid3_def)
  with assms obtain px r' where r: "r = px # r'"
    by (cases r) (auto simp: is_grid3_def is_grid_def)
  have all: "\<forall>p\<in>set (concat im). length p = k"
    using assms(1) by (auto simp: is_grid3_def is_grid_def list_all_iff)
  have c: "concat im = px # (r' @ concat rs)" using im r by simp
  have "length (fold (map2 f) (r' @ concat rs) px) = k"
    using all unfolding c by (intro length_fold_map2) auto
  then show ?thesis by (simp add: reduce_axis01_def c)
qed

lemma is_grid3_map_pixels:
  assumes "is_grid3 h w k im" "\<And>px. length px = k \<Longrightarrow> length (f px) = k'"
  shows "is_grid3 h w k' (map (map f) im)"
  using assms by (auto simp: is_grid3_def is_grid_def list_all_iff)

lemma is_grid3_add_channel_axis:
  "is_grid h w g \<Longrightarrow> is_grid3 h w 1 (add_channel_axis (Raw2 g))"
  by (auto simp: is_grid3_def is_grid_def list_all_iff add_channel_axis_def)

lemma is_grid3_astype:
  assumes "raw_grid h w c r"
  shows "is_grid3 h w c (add_channel_axis (astype_float32 r))"
proof (cases r)
  case (Raw2 g)
  with assms have "is_grid h w (map (map round32) g)" "c = 1"
    by (auto simp: raw_grid_def is_grid_def list_all_iff)
  with Raw2 show ?thesis
    using is_grid3_add_channel_axis[of h w "map (map round32) g"]
    by (simp add: astype_float32_def)
next
  case (Raw3 g)
  with assms show ?thesis
    by (auto simp: raw_grid_def astype_float32_def add_channel_axis_def is_grid3_def
        is_grid_def list_all_iff)
qed

lemma normalize_img_grid:
  assumes "raw_grid h w c r" "0 < h" "0 < w"
  shows "\<exists>im. normalize_img r = Inr im \<and> is_grid3 h w c im"
proof -
  let ?img = "add_channel_axis (astype_float32 r)"
  have g0: "is_grid3 h w c ?img" using assms(1) by (rule is_grid3_astype)
  from reduce_axis01_Inr[OF g0 assms(2,3)] obtain mins
    where mins: "reduce_axis01 f32_min ?img = Inr mins" "length mins = c" by blast
  let ?img1 = "map (map (\<lambda>px. map2 f32_sub px mins)) ?img"
  have g1: "is_grid3 h w c ?img1"
    by (rule is_grid3_map_pixels[OF g0]) (simp add: mins(2))
  from reduce_axis01_Inr[OF g1 assms(2,3)] obtain maxs
    where maxs: "reduce_axis01 f32_max ?img1 = Inr maxs" "length maxs = c" by blast
  have "is_grid3 h w c (map (map (\<lambda>px. map2 f32_div px maxs)) ?img1)"
    by (rule is_grid3_map_pixels[OF g1]) (simp add: maxs(2))
  then show ?thesis
    by (simp add: normalize_img_def Let_def mins(1) maxs(1))
qed

lemma normalize_img_Raw2:
  assumes "is_grid h w g" "0 < h" "0 < w"
  shows "\<exists>im. normalize_img (Raw2 g) = Inr im \<and> is_grid3 h w 1 im"
  by (rule normalize_img_grid) (use assms in \<open>simp_all add: raw_grid_def\<close>)

lemma normalize_img_empty:
  assumes "concat g = []"
  shows "normalize_img (Raw2 g) = Inl ZeroSizeReduction"
proof -
  have "concat (add_channel_axis (astype_float32 (Raw2 g))) =
      map (\<lambda>x. [round32 x]) (concat g)"
    by (simp add: add_channel_axis_def astype_float32_def map_concat o_def)
  then have e: "concat (add_channel_axis (astype_float32 (Raw2 g))) = []"
    by (simp only: assms list.map)
  have "reduce_axis01 f32_min (add_channel_axis (astype_float32 (Raw2 g))) =
      Inl ZeroSizeReduction"
    unfolding reduce_axis01_def e by simp
  then show ?thesis
    by (simp add: normalize_img_def Let_def)
qed

lemma count_true_nonneg: "0 \<le> count_true r"
  by (simp add: count_true_def)

lemma sum_count_true_pos:
  "x \<in> set (concat g) \<Longrightarrow> 0 < sum_list (map count_true (eq_mask x g))"
proof (induction g)
  case Nil
  then show ?case by simp
next
  case (Cons r g)
  have nn: "0 \<le> sum_list (map count_true (eq_mask x g))"
    by (rule sum_list_nonneg) (auto simp: count_true_nonneg)
  show ?case
  proof (cases "x \<in> set r")
    case True
    then have "0 < count_true (map (\<lambda>v. v = x) r)"
      by (auto simp: count_true_def filter_empty_conv)
    with nn show ?thesis by (simp add: eq_mask_def)
  next
    case False
    with Cons have "0 < sum_list (map count_true (eq_mask x g))" by simp
    moreover have "0 \<le> count_true (map (\<lambda>v. v = x) r)" by (rule count_true_nonneg)
    ultimately show ?thesis by (simp add: eq_mask_def)
  qed
qed

lemma center_of_mass_as_int_Inr:
  "x \<in> set (concat g) \<Longrightarrow> \<exists>m. center_of_mass_as_int (eq_mask x g) = Inr m"
  using sum_count_true_pos[of x g] by (simp add: center_of_mass_as_int_def Let_def)

lemma make_patch_Inr:
  "x \<in> set (concat g) \<Longrightarrow> \<exists>p. make_patch im g lab s x = Inr p"
  using center_of_mass_as_int_Inr[of x g]
  by (auto simp: make_patch_def Let_def split: prod.splits)

lemma set_indices_of: "set (indices_of g) \<subseteq> set (concat g)"
proof -
  have "set (tl (np_unique g)) \<subseteq> set (np_unique g)"
    by (cases "np_unique g") auto
  then show ?thesis by (simp add: indices_of_def np_unique_def)
qed

lemma distinct_indices_of: "distinct (indices_of g)"
  by (simp add: indices_of_def np_unique_def distinct_tl)

lemma patches_loop_Inr:
  assumes "set inds \<subseteq> set (concat g)"
  shows "\<exists>ps'. patches_loop im g lab s inds ps = Inr ps'"
  using assms
proof (induction inds arbitrary: ps)
  case Nil
  then show ?case by simp
next
  case (Cons i inds)
  then obtain p where "make_patch im g lab s i = Inr p"
    using make_patch_Inr[of i g im lab s] by auto
  with Cons show ?case by simp
qed

lemma patches_loop_items:
  assumes "patches_loop im g lab s inds ps = Inr ps'" "distinct inds"
    "set inds \<inter> fst ` set ps = {}"
  shows "\<exists>qs. ps' = ps @ qs \<and> map fst qs = inds \<and>
           (\<forall>kp\<in>set qs. make_patch im g lab s (fst kp) = Inr (snd kp))"
  using assms
proof (induction inds arbitrary: ps)
  case Nil
  then show ?case by simp
next
  case (Cons i inds)
  from Cons.prems(1) obtain p where p: "make_patch im g lab s i = Inr p"
    and rest: "patches_loop im g lab s inds (AList.update i p ps) = Inr ps'"
    by (auto split: sum.splits)
  from Cons.prems(3) have notin: "i \<notin> fst ` set ps" by auto
  then have upd: "AList.update i p ps = ps @ [(i, p)]"
    by (induction ps) auto
  have "set inds \<inter> fst ` set (ps @ [(i, p)]) = {}"
    using Cons.prems(2,3) by auto
  with Cons.IH[of "ps @ [(i, p)]"] rest upd Cons.prems(2)
  obtain qs where qs: "ps' = (ps @ [(i, p)]) @ qs" "map fst qs = inds"
      "\<forall>kp\<in>set qs. make_patch im g lab s (fst kp) = Inr (snd kp)"
    by auto
  show ?case
    by (rule exI[of _ "(i, p) # qs"]) (use qs p in auto)
qed

lemma create_patches_Inr: "\<exists>ps. create_patches im g lab s = Inr ps"
  unfolding create_patches_def by (rule patches_loop_Inr) (rule set_indices_of)

lemma create_patches_items:
  assumes "create_patches im g lab s = Inr ps"
  shows "map fst ps = indices_of g"
    and "\<forall>kp\<in>set ps. make_patch im g lab s (fst kp) = Inr (snd kp)"
  using patches_loop_items[OF assms[unfolded create_patches_def] distinct_indices_of]
  by auto

subsection \<open>Construction\<close>

lemma length_concat_grid: "is_grid h w g \<Longrightarrow> length (concat g) = h * w"
proof -
  assume "is_grid h w g"
  then have "length g = h" "\<forall>r\<in>set g. length r = w"
    by (simp_all add: is_grid_def list_all_iff)
  then show ?thesis
    by (induction g arbitrary: h) (auto simp: )
qed

lemma elements_grid3:
  assumes "is_grid3 h w c t" shows "elements t = h * w * c"
proof -
  from assms have l: "length t = h" and rows: "\<forall>r\<in>set t. is_grid w c r"
    by (simp_all add: is_grid3_def list_all_iff)
  have a: "length (concat t) = h * w"
    by (rule length_concat_grid) (use l rows in \<open>simp add: is_grid_def list_all_iff\<close>)
  have "\<forall>px\<in>set (concat t). length px = c"
    using rows by (auto simp: is_grid_def list_all_iff)
  then have "is_grid (h * w) c (concat t)"
    using a by (simp add: is_grid_def list_all_iff)
  then show ?thesis unfolding elements_def by (rule length_concat_grid)
qed

lemma shape1_grid: "is_grid h w g \<Longrightarrow> g \<noteq> [] \<Longrightarrow> shape1 g = w"
  by (cases g) (simp_all add: shape1_def is_grid_def)

lemma Dataset_init_Raw3: "Dataset_init (Raw3 g) marker lab s = Inl ImageSizeMismatch"
  by (simp add: Dataset_init_def shapes_differ_def shape2_def shape3_def)

lemma Dataset_init_InrD:
  assumes "Dataset_init raw marker lab s = Inr ds"
  obtains g im where "raw = Raw2 g" "shape2 g = shape2 marker"
    "normalize_img raw = Inr im" "create_patches im marker lab s = Inr (patch_set ds)"
    "img ds = im" "marker_img ds = marker" "label_img ds = lab" "crop_size ds = s"
    "\<And>l. lab = Some l \<Longrightarrow> shape2 g = shape2 l"
proof (cases raw)
  case (Raw3 g)
  with assms show ?thesis by (simp add: Dataset_init_Raw3)
next
  case (Raw2 g)
  from assms have nd: "\<not> shapes_differ raw marker lab"
    by (auto simp: Dataset_init_def split: if_splits)
  from assms nd obtain im ps where im: "normalize_img raw = Inr im"
    and ps: "create_patches im marker lab s = Inr ps"
    and ds: "ds = \<lparr> img = im, marker_img = marker, label_img = lab, crop_size = s, patch_set = ps \<rparr>"
    by (auto simp: Dataset_init_def split: sum.splits)
  show ?thesis
    by (rule that[of g im]) (use Raw2 nd im ps ds in \<open>auto simp: shapes_differ_def\<close>)
qed

lemma center_of_mass_nonempty:
  "center_of_mass_as_int (eq_mask x g) = Inr m \<Longrightarrow> g \<noteq> []"
  by (auto simp: center_of_mass_as_int_def eq_mask_def Let_def)

lemma make_patch_InrD:
  assumes "make_patch im g lab s x = Inr p"
  obtains m0 m1 c0 c1 where "center_of_mass_as_int (eq_mask x g) = Inr (m0, m1)"
    "c0 = sorted_middle (m0 - s div 2) (int (length g) - s)"
    "c1 = sorted_middle (m1 - s div 2) (int (shape1 g) - s)"
    "coordinate p = (c0, c1)"
    "data p = concatenate_mask (crop c0 c1 s im) (eq_mask x (crop c0 c1 s g))"
    "label p = map_option (\<lambda>l. map (map bool_to_uint8) (eq_mask x (crop c0 c1 s l))) lab"
  using assms
  by (auto simp: make_patch_def Let_def split: sum.splits prod.splits)

lemma make_patch_grid:
  assumes mp: "make_patch im g lab s x = Inr p"
    and im: "is_grid3 h w c im" and g: "is_grid h w g"
    and s: "0 \<le> s" "s \<le> int h" "s \<le> int w"
  shows "is_grid3 (nat s) (nat s) (Suc c) (data p)"
proof -
  from mp obtain m0 m1 c0 c1 where
    com: "center_of_mass_as_int (eq_mask x g) = Inr (m0, m1)"
    and c0: "c0 = sorted_middle (m0 - s div 2) (int (length g) - s)"
    and c1: "c1 = sorted_middle (m1 - s div 2) (int (shape1 g) - s)"
    and d: "data p = concatenate_mask (crop c0 c1 s im) (eq_mask x (crop c0 c1 s g))"
    by (rule make_patch_InrD)
  from com have "g \<noteq> []" by (rule center_of_mass_nonempty)
  with g have w: "shape1 g = w" by (rule shape1_grid)
  from g have h: "length g = h" by (simp add: is_grid_def)
  have r0: "0 \<le> c0 \<and> c0 \<le> int h - s" unfolding c0 h
    by (rule sorted_middle_range) (use s in simp)
  have r1: "0 \<le> c1 \<and> c1 \<le> int w - s" unfolding c1 w
    by (rule sorted_middle_range) (use s in simp)
  have "is_grid3 (nat s) (nat s) c (crop c0 c1 s im)"
    by (rule is_grid3_crop[OF im]) (use r0 r1 s in auto)
  moreover have "is_grid (nat s) (nat s) (eq_mask x (crop c0 c1 s g))"
    by (rule is_grid_eq_mask, rule is_grid_crop[OF g]) (use r0 r1 s in auto)
  ultimately show ?thesis unfolding d by (rule is_grid3_concatenate_mask)
qed

lemma Dataset_init_grids:
  assumes init: "Dataset_init raw marker lab s = Inr ds"
    and raw: "raw_grid h w c raw" and m: "is_grid h w marker"
  shows "c = 1" "is_grid3 h w c (img ds)" "0 < h" "0 < w"
proof -
  from init obtain g im where g: "raw = Raw2 g" and sh: "shape2 g = shape2 marker"
    and n: "normalize_img raw = Inr im" and i: "img ds = im"
    by (rule Dataset_init_InrD)
  from raw g have c: "c = 1" and gg: "is_grid h w g" by (simp_all add: raw_grid_def)
  from c show "c = 1" .
  have ne: "concat g \<noteq> []"
    using n normalize_img_empty[of g] g by auto
  then have "g \<noteq> []" by auto
  with gg show h: "0 < h" by (auto simp: is_grid_def)
  from ne gg show w: "0 < w" by (auto simp: is_grid_def list_all_iff)
  from normalize_img_Raw2[OF gg h w] n g i c show "is_grid3 h w c (img ds)" by auto
qed

subsection \<open>The example inputs\<close>

lemma init_from_parts:
  assumes "\<not> shapes_differ r m l" "normalize_img r = Inr im" "create_patches im m l s = Inr ps"
  shows "Dataset_init r m l s =
     Inr \<lparr> img = im, marker_img = m, label_img = l, crop_size = s, patch_set = ps \<rparr>"
  using assms by (simp add: Dataset_init_def)

lemmas normalize_eval =
  normalize_img_def astype_float32_def add_channel_axis_def reduce_axis01_def Let_def
  round32_small f32_min_def f32_max_def

lemma demo_normalize: "normalize_img demo_raw = Inr demo_img"
  by (simp add: normalize_eval demo_raw_def demo_img_def)

lemma small_normalize: "normalize_img small_raw = Inr small_img"
  by (simp add: normalize_eval small_raw_def small_img_def)


lemma demo_init: "Dataset_init demo_raw demo_marker (Some demo_label) 2 = Inr demo_dataset"
proof -
  have "\<not> shapes_differ demo_raw demo_marker (Some demo_label)" by code_simp
  moreover have "create_patches demo_img demo_marker (Some demo_label) 2 =
      Inr [(1, demo_patch1), (2, demo_patch2)]"
    by code_simp
  ultimately show ?thesis
    unfolding demo_dataset_def by (rule init_from_parts[OF _ demo_normalize])
qed

lemma plain_init: "Dataset_init demo_raw demo_marker None 2 = Inr plain_dataset"
proof -
  have "\<not> shapes_differ demo_raw demo_marker None" by code_simp
  moreover have "create_patches demo_img demo_marker None 2 =
      Inr [(1, demo_patch1 \<lparr> label := None \<rparr>), (2, demo_patch2 \<lparr> label := None \<rparr>)]"
    by code_simp
  ultimately show ?thesis
    unfolding plain_dataset_def by (rule init_from_parts[OF _ demo_normalize])
qed

subsection \<open>The read operations\<close>

lemma make_patch_label:
  assumes "make_patch im g (Some l) s x = Inr p"
  shows "label p \<noteq> None"
  using assms by (rule make_patch_InrD) simp

lemma make_patch_no_label:
  assumes "make_patch im g None s x = Inr p"
  shows "label p = None"
  using assms by (rule make_patch_InrD) simp

lemma unpack3_labelled:
  assumes "\<forall>p\<in>set ps. label p \<noteq> None"
  shows "\<exists>ys. unpack3 ps = Inr ys \<and>
           map (\<lambda>p. (data p, label p)) ps = map (\<lambda>y. (fst y, Some (snd y))) ys"
  using assms
proof (induction ps)
  case Nil
  then show ?case by simp
next
  case (Cons p ps)
  then obtain l where l: "label p = Some l" by auto
  from Cons obtain ys where "unpack3 ps = Inr ys"
    "map (\<lambda>p. (data p, label p)) ps = map (\<lambda>y. (fst y, Some (snd y))) ys" by auto
  then show ?case using l by simp
qed



lemma tf_stack_Nil: "tf_stack [] = Inr []"
  by (simp add: tf_stack_def)

lemma subtract_anchor_Nil: "subtract_anchor [] a = Inl BroadcastMismatch"
  by (simp add: subtract_anchor_def np_array_shape_def)





lemma wide_normalize: "normalize_img wide_raw = Inr wide_img"
  by (simp add: normalize_eval wide_raw_def wide_img_def)

lemma wide_init: "Dataset_init wide_raw wide_marker None 2 = Inr wide_dataset"
proof -
  have "\<not> shapes_differ wide_raw wide_marker None" by code_simp
  moreover have "create_patches wide_img wide_marker None 2 =
      Inr [(1, \<lparr> coordinate = (0, 0), data = wide_data1, label = None \<rparr>),
           (2, \<lparr> coordinate = (3, 3), data = wide_data2, label = None \<rparr>),
           (3, \<lparr> coordinate = (1, 0), data = wide_data3, label = None \<rparr>)]"
    by code_simp
  ultimately show ?thesis
    unfolding wide_dataset_def by (rule init_from_parts[OF _ wide_normalize])
qed

lemma wide_sizes:
  "int (length (marker_img wide_dataset)) - 2 - crop_size wide_dataset = 2"
  "int (shape1 (marker_img wide_dataset)) - 2 - crop_size wide_dataset = 2"
  by code_simp+


lemma wide_selected_11: "selected wide_dataset (1, 1) 2 = []"
  by code_simp




subsection \<open>The example of one square object\<close>

lemma weighted_moment: "weighted cs = moment 0 cs"
  by (simp add: weighted_def moment_def)

lemma moment_append: "moment k (xs @ ys) = moment k xs + moment (k + length xs) ys"
proof -
  have "[k..<k + (length xs + length ys)] = [k..<k + length xs] @ [k + length xs..<k + length xs + length ys]"
    by (metis add.assoc le_add1 upt_add_eq_append)
  then show ?thesis
    by (simp add: moment_def)
qed

lemma moment_Cons: "moment k (c # cs) = c * int k + moment (Suc k) cs"
  by (simp add: moment_def upt_conv_Cons del: upt_Suc)

lemma moment_replicate:
  "2 * moment k (replicate n c) = c * (2 * int n * int k + int n * (int n - 1))"
proof (induction n arbitrary: k)
  case 0
  then show ?case by (simp add: moment_def)
next
  case (Suc n)
  have "2 * moment k (replicate (Suc n) c) = 2 * c * int k + 2 * moment (Suc k) (replicate n c)"
    by (simp add: moment_Cons)
  also have "\<dots> = 2 * c * int k + c * (2 * int n * int (Suc k) + int n * (int n - 1))"
    by (simp only: Suc)
  also have "\<dots> = c * (2 * int (Suc n) * int k + int (Suc n) * (int (Suc n) - 1))"
    by (simp add: algebra_simps)
  finally show ?case .
qed

lemma moment_replicate_0: "moment k (replicate n 0) = 0"
  using moment_replicate[of k n 0] by simp

lemma count_true_replicate: "count_true (replicate n b) = (if b then int n else 0)"
  by (simp add: count_true_def)

lemma count_true_append: "count_true (xs @ ys) = count_true xs + count_true ys"
  by (simp add: count_true_def)

lemma sort_remdups_set: "sort (remdups xs) = sorted_list_of_set (set xs)"
  by (simp add: sorted_list_of_set_sort_remdups)

lemma indices_of_object_marker:
  assumes "0 < n" "n < 60"
  shows "indices_of (object_marker n) = [1]"
proof -
  have "set (concat (object_marker n)) = {0, 1}"
    using assms by (auto simp: object_marker_def)
  then have "np_unique (object_marker n) = sorted_list_of_set {0, 1}"
    by (simp only: np_unique_def sort_remdups_set)
  then show ?thesis by (simp add: indices_of_def)
qed

lemma eq_mask_object_marker:
  "eq_mask 1 (object_marker n) =
     replicate 40 (replicate 100 False) @
     replicate n (replicate 40 False @ replicate n True @ replicate (60 - n) False) @
     replicate (60 - n) (replicate 100 False)"
  by (simp add: eq_mask_def object_marker_def)

lemma counts_object_marker:
  "map count_true (eq_mask 1 (object_marker n)) =
     replicate 40 0 @ replicate n (int n) @ replicate (60 - n) 0"
  by (simp add: eq_mask_object_marker count_true_append count_true_replicate)

lemma mass_object_marker:
  "sum_list (map count_true (eq_mask 1 (object_marker n))) = int n * int n"
  by (simp add: counts_object_marker sum_list_replicate)

lemma row_moment_object_marker:
  "2 * row_moment (eq_mask 1 (object_marker n)) = int n * (80 * int n + int n * (int n - 1))"
proof -
  have "row_moment (eq_mask 1 (object_marker n)) = moment 40 (replicate n (int n))"
    by (simp add: row_moment_def counts_object_marker weighted_moment moment_append
        moment_replicate_0)
  then show ?thesis using moment_replicate[of 40 n "int n"] by simp
qed

lemma col_moment_object_marker:
  "2 * col_moment (eq_mask 1 (object_marker n)) = int n * (80 * int n + int n * (int n - 1))"
proof -
  have z: "weighted (replicate 100 0) = 0"
    by (simp add: weighted_moment moment_replicate_0)
  have r: "weighted (replicate 40 0 @ replicate n 1 @ replicate (60 - n) 0) =
      moment 40 (replicate n 1)"
    by (simp add: weighted_moment moment_append moment_replicate_0)
  have "col_moment (eq_mask 1 (object_marker n)) = int n * moment 40 (replicate n 1)"
    by (simp add: col_moment_def eq_mask_object_marker z r sum_list_replicate)
  then show ?thesis using moment_replicate[of 40 n 1] by simp
qed

lemma centroid_object_6: "center_of_mass_as_int (eq_mask 1 (object_marker 6)) = Inr (43, 43)"
proof -
  have "row_moment (eq_mask 1 (object_marker 6)) = 1530"
    using row_moment_object_marker[of 6] by simp
  moreover have "col_moment (eq_mask 1 (object_marker 6)) = 1530"
    using col_moment_object_marker[of 6] by simp
  moreover have "sum_list (map count_true (eq_mask 1 (object_marker 6))) = 36"
    using mass_object_marker[of 6] by simp
  ultimately show ?thesis
    by (simp add: center_of_mass_as_int_def py_int_def floor_eq_iff)
qed

lemma centroid_object_5: "center_of_mass_as_int (eq_mask 1 (object_marker 5)) = Inr (42, 42)"
proof -
  have "row_moment (eq_mask 1 (object_marker 5)) = 1050"
    using row_moment_object_marker[of 5] by simp
  moreover have "col_moment (eq_mask 1 (object_marker 5)) = 1050"
    using col_moment_object_marker[of 5] by simp
  moreover have "sum_list (map count_true (eq_mask 1 (object_marker 5))) = 25"
    using mass_object_marker[of 5] by simp
  ultimately show ?thesis
    by (simp add: center_of_mass_as_int_def py_int_def floor_eq_iff)
qed

lemma map_map2_right:
  assumes "length xs = length ys" "\<And>x y. (x, y) \<in> set (zip xs ys) \<Longrightarrow> g (f x y) = h y"
  shows "map g (map2 f xs ys) = map h ys"
  using assms by (induction xs ys rule: list_induct2) auto

lemma mask_channel:
  assumes "is_grid3 h w c p1" "is_grid h w p2"
  shows "map (map last) (concatenate_mask p1 p2) = map (map bool_to_float) p2"
  unfolding concatenate_mask_def
proof (rule map_map2_right)
  show "length p1 = length p2" using assms by (simp add: is_grid3_def is_grid_def)
next
  fix r m assume "(r, m) \<in> set (zip p1 p2)"
  then have "r \<in> set p1" "m \<in> set p2" by (auto dest: set_zip_leftD set_zip_rightD)
  with assms have "length r = length m"
    by (auto simp: is_grid3_def is_grid_def list_all_iff)
  then show "map last (map2 (\<lambda>px b. px @ [bool_to_float b]) r m) = map bool_to_float m"
    by (rule map_map2_right) simp
qed

lemma is_grid_object_marker: "n \<le> 60 \<Longrightarrow> is_grid 100 100 (object_marker n)"
  by (auto simp: is_grid_def object_marker_def list_all_iff)

lemma shape_object_marker:
  assumes "n \<le> 60"
  shows "length (object_marker n) = 100" "shape1 (object_marker n) = 100"
proof -
  from assms have g: "is_grid 100 100 (object_marker n)" by (rule is_grid_object_marker)
  then show "length (object_marker n) = 100" by (simp add: is_grid_def)
  then have "object_marker n \<noteq> []" by auto
  with g show "shape1 (object_marker n) = 100" by (rule shape1_grid)
qed

lemma crop_object_6:
  "eq_mask 1 (crop 11 11 64 (object_marker 6)) = window_mask 29 6"
  by (simp add: crop_def py_slice_def py_bound_def object_marker_def window_mask_def eq_mask_def)

lemma crop_object_5:
  "eq_mask 1 (crop 10 10 64 (object_marker 5)) = window_mask 30 5"
  by (simp add: crop_def py_slice_def py_bound_def object_marker_def window_mask_def eq_mask_def)

lemma is_grid_window_mask: "a + n \<le> 64 \<Longrightarrow> is_grid 64 64 (window_mask a n)"
  by (auto simp: is_grid_def window_mask_def list_all_iff)

lemma is_grid_ramp: "is_grid 100 100 ramp"
  by (simp add: is_grid_def ramp_def list_all_iff)

lemma shape2_grid: "is_grid h w g \<Longrightarrow> 0 < h \<Longrightarrow> shape2 g = [h, w]"
  by (cases g) (simp_all add: shape2_def shape1_def is_grid_def)

lemma single_object_construction:
  assumes g: "is_grid 100 100 g"
    and lab: "case lab of None \<Rightarrow> True | Some l \<Rightarrow> is_grid 100 100 l"
    and n: "0 < n" "n < 60"
    and com: "center_of_mass_as_int (eq_mask 1 (object_marker n)) = Inr (m0, m1)"
  shows "\<exists>im. is_grid3 100 100 1 im \<and>
     Dataset_init (Raw2 g) (object_marker n) lab 64 =
       Inr \<lparr> img = im, marker_img = object_marker n, label_img = lab, crop_size = 64,
             patch_set =
               [(1, \<lparr> coordinate = (sorted_middle (m0 - 32) 36, sorted_middle (m1 - 32) 36),
                       data = concatenate_mask
                         (crop (sorted_middle (m0 - 32) 36) (sorted_middle (m1 - 32) 36) 64 im)
                         (eq_mask 1 (crop (sorted_middle (m0 - 32) 36) (sorted_middle (m1 - 32) 36) 64
                            (object_marker n))),
                       label = map_option (\<lambda>l. map (map bool_to_uint8)
                         (eq_mask 1 (crop (sorted_middle (m0 - 32) 36) (sorted_middle (m1 - 32) 36) 64 l)))
                         lab \<rparr>)] \<rparr>"
proof -
  from normalize_img_Raw2[OF g] obtain im where
    im: "normalize_img (Raw2 g) = Inr im" "is_grid3 100 100 1 im" by auto
  have mg: "is_grid 100 100 (object_marker n)" using n by (simp add: is_grid_object_marker)
  have sh: "shape2 g = [100, 100]" "shape2 (object_marker n) = [100, 100]"
    using g mg by (simp_all add: shape2_grid)
  have "\<not> shapes_differ (Raw2 g) (object_marker n) lab"
    using lab sh by (auto simp: shapes_differ_def shape2_grid split: option.splits)
  moreover have "create_patches im (object_marker n) lab 64 =
      Inr [(1, \<lparr> coordinate = (sorted_middle (m0 - 32) 36, sorted_middle (m1 - 32) 36),
                       data = concatenate_mask
                         (crop (sorted_middle (m0 - 32) 36) (sorted_middle (m1 - 32) 36) 64 im)
                         (eq_mask 1 (crop (sorted_middle (m0 - 32) 36) (sorted_middle (m1 - 32) 36) 64
                            (object_marker n))),
                       label = map_option (\<lambda>l. map (map bool_to_uint8)
                         (eq_mask 1 (crop (sorted_middle (m0 - 32) 36) (sorted_middle (m1 - 32) 36) 64 l)))
                         lab \<rparr>)]"
    using n by (simp add: create_patches_def indices_of_object_marker make_patch_def com
        shape_object_marker Let_def)
  ultimately show ?thesis using im by (simp add: Dataset_init_def)
qed

lemma single_object_patch:
  assumes g: "is_grid 100 100 g" and n: "0 < n" "n < 60"
    and com: "center_of_mass_as_int (eq_mask 1 (object_marker n)) = Inr (m, m)"
    and c: "sorted_middle (m - 32) 36 = c" "0 \<le> c" "c \<le> 36"
    and w: "eq_mask 1 (crop c c 64 (object_marker n)) = window_mask a n" "a + n \<le> 64"
  shows "\<exists>ds p. Dataset_init (Raw2 g) (object_marker n) None 64 = Inr ds \<and>
           patch_set ds = [(1, p)] \<and> coordinate p = (c, c) \<and>
           is_grid3 64 64 (1 + 1) (data p) \<and>
           map (map last) (data p) = map (map bool_to_float) (window_mask a n)"
proof -
  have "\<exists>im. is_grid3 100 100 1 im \<and> Dataset_init (Raw2 g) (object_marker n) None 64 =
       Inr \<lparr> img = im, marker_img = object_marker n, label_img = None, crop_size = 64,
             patch_set = [(1, \<lparr> coordinate = (c, c),
                       data = concatenate_mask (crop c c 64 im) (window_mask a n),
                       label = None \<rparr>)] \<rparr>"
    using single_object_construction[OF g _ n com, of None]
    by (simp add: c(1) w(1))
  then obtain im
    where im: "is_grid3 100 100 1 im"
      and ds: "Dataset_init (Raw2 g) (object_marker n) None 64 =
       Inr \<lparr> img = im, marker_img = object_marker n, label_img = None, crop_size = 64,
             patch_set = [(1, \<lparr> coordinate = (c, c),
                       data = concatenate_mask (crop c c 64 im) (window_mask a n),
                       label = None \<rparr>)] \<rparr>"
    by blast
  have g1: "is_grid3 64 64 1 (crop c c 64 im)"
    using is_grid3_crop[OF im, of c c 64] c(2,3) by simp
  have g2: "is_grid 64 64 (window_mask a n)" using w(2) by (rule is_grid_window_mask)
  have "is_grid3 64 64 (1 + 1) (concatenate_mask (crop c c 64 im) (window_mask a n))"
    using is_grid3_concatenate_mask[OF g1 g2] by simp
  moreover have "map (map last) (concatenate_mask (crop c c 64 im) (window_mask a n)) =
      map (map bool_to_float) (window_mask a n)"
    using g1 g2 by (rule mask_channel)
  ultimately show ?thesis using ds by simp
qed

lemma window_6: "sorted_middle (43 - 32) 36 = 11"
  by (simp add: sorted_middle_def)

lemma window_5: "sorted_middle (42 - 32) 36 = 10"
  by (simp add: sorted_middle_def)

lemma single_object_half_open:
  assumes "is_grid 100 100 g"
  shows "center_of_mass_as_int (eq_mask 1 (object_marker 5)) = Inr (42, 42) \<and>
         (\<exists>ds p. Dataset_init (Raw2 g) (object_marker 5) None 64 = Inr ds \<and>
           patch_set ds = [(1, p)] \<and> coordinate p = (10, 10) \<and>
           is_grid3 64 64 (1 + 1) (data p) \<and>
           map (map last) (data p) = map (map bool_to_float) (window_mask 30 5))"
  using single_object_patch[OF assms _ _ centroid_object_5 window_5 _ _ crop_object_5]
    centroid_object_5 by simp

subsection \<open>Normalisation of one channel\<close>

lemma round_scaled_pow:
  assumes "j \<le> 127"
  shows "round_scaled (2 ^ j * f32_scale) = 2 ^ j * f32_scale"
proof -
  have "(2::rat) ^ j * 2 ^ 149 = 2 ^ (j + 149)" by (simp only: power_add)
  moreover have "rat_of_int (2 ^ 24) * 2 ^ (j + 125) = 2 ^ (24 + (j + 125))"
    by (simp only: of_int_power of_int_numeral power_add)
  moreover have "j + 149 = 24 + (j + 125)" by simp
  ultimately have e: "2 ^ j * f32_scale = rat_of_int (2 ^ 24) * 2 ^ (j + 125)"
    by (simp only: f32_scale_def)
  show ?thesis unfolding e by (rule round_scaled_int) (use assms in simp_all)
qed

lemma round32_Num_pow:
  assumes "j \<le> 127" "\<bar>x\<bar> \<le> 2 ^ j"
  shows "\<exists>a. round32 x = Num a \<and> \<bar>a\<bar> \<le> 2 ^ j"
proof -
  define B :: rat where "B = 2 ^ j"
  define C :: rat where "C = 2 ^ 128"
  have "(2::rat) ^ j < 2 ^ 128" using assms(1) by (intro power_strict_increasing) auto
  then have BC: "0 < B" "B < C" by (simp_all add: B_def C_def)
  let ?r = "round_scaled (x * f32_scale)"
  have x: "x \<le> B" "- B \<le> x" using assms(2) by (simp_all only: B_def abs_le_iff) linarith+
  have "x * f32_scale \<le> B * f32_scale" "- B * f32_scale \<le> x * f32_scale"
    using x by (simp_all only: mult_right_mono f32_scale_pos)
  then have "?r \<le> round_scaled (B * f32_scale)" "round_scaled (- (B * f32_scale)) \<le> ?r"
    by (simp_all only: round_scaled_mono minus_mult_left)
  then have b: "?r \<le> B * f32_scale" "- (B * f32_scale) \<le> ?r"
    by (simp_all only: round_scaled_minus round_scaled_pow[OF assms(1)] B_def)
  have "B * f32_scale < C * f32_scale" using BC by (simp only: mult_strict_right_mono f32_scale_pos)
  with b have "\<not> C * f32_scale \<le> ?r" "\<not> ?r \<le> - (C * f32_scale)" by linarith+
  then have "round32 x = Num (?r / f32_scale)"
    unfolding round32_def Let_def C_def by (simp only: if_False)
  moreover have "?r / f32_scale \<le> B" "- B \<le> ?r / f32_scale"
    using b by (simp_all add: pos_divide_le_eq pos_le_divide_eq)
  then have "\<bar>?r / f32_scale\<bar> \<le> B"
    by (intro abs_leI) linarith+
  ultimately show ?thesis unfolding B_def by blast
qed

lemma fold_map2_nth:
  assumes "\<forall>p\<in>set pxs. length p = c" "length px = c" "k < c"
  shows "fold (map2 f) pxs px ! k = fold f (map (\<lambda>p. p ! k) pxs) (px ! k)"
  using assms by (induction pxs arbitrary: px) simp_all

lemma reduce_axis01_nth:
  assumes "is_grid3 h w c im" "reduce_axis01 f im = Inr v" "k < c"
  shows "v ! k = fold f (tl (channel k im)) (hd (channel k im))"
proof -
  have all: "\<forall>p\<in>set (concat im). length p = c"
    using assms(1) by (auto simp: is_grid3_def is_grid_def list_all_iff)
  from assms(2) obtain px pxs where c: "concat im = px # pxs" and v: "v = fold (map2 f) pxs px"
    by (auto simp: reduce_axis01_def split: list.splits)
  from all c have "\<forall>p\<in>set pxs. length p = c" "length px = c" by auto
  from fold_map2_nth[OF this assms(3)] show ?thesis
    by (simp add: v channel_def c)
qed

lemma channel_map_pixels:
  assumes "is_grid3 h w c im" "length vec = c" "k < c"
  shows "channel k (map (map (\<lambda>px. map2 f px vec)) im) = map (\<lambda>v. f v (vec ! k)) (channel k im)"
proof -
  have all: "\<forall>p\<in>set (concat im). length p = c"
    using assms(1) by (auto simp: is_grid3_def is_grid_def list_all_iff)
  have "concat (map (map (\<lambda>px. map2 f px vec)) im) = map (\<lambda>px. map2 f px vec) (concat im)"
    by (simp add: map_concat)
  then show ?thesis
    using all assms(2,3) by (simp add: channel_def)
qed

lemma channel_astype:
  assumes "raw_grid h w c r" "k < c"
  shows "channel k (add_channel_axis (astype_float32 r)) =
         map round32 (channel k (add_channel_axis r))"
proof (cases r)
  case (Raw2 g)
  with assms have "k = 0" by (simp add: raw_grid_def)
  with Raw2 show ?thesis
    by (simp add: channel_def add_channel_axis_def astype_float32_def map_concat o_def)
next
  case (Raw3 g)
  with assms have len: "\<forall>px\<in>set (concat g). k < length px"
    by (auto simp: raw_grid_def is_grid3_def is_grid_def list_all_iff)
  have "concat (map (map (map round32)) g) = map (map round32) (concat g)"
    by (simp add: map_concat)
  then have "channel k (map (map (map round32)) g) =
      map (\<lambda>px. map round32 px ! k) (concat g)"
    by (simp add: channel_def o_def)
  also have "\<dots> = map (\<lambda>px. round32 (px ! k)) (concat g)"
    using len by (intro map_cong) auto
  finally show ?thesis
    using Raw3 by (simp add: channel_def add_channel_axis_def astype_float32_def o_def)
qed

lemma spec_normalize_channel_range:
  fixes as :: "rat list"
  assumes "as \<noteq> []"
    and "\<forall>a\<in>set as. \<bar>a\<bar> \<le> 2 ^ 126 \<and> a * f32_scale \<in> \<int>"
    and "\<exists>a\<in>set as. \<exists>b\<in>set as. a \<noteq> b"
  shows "\<exists>qs. spec_normalize_channel (map Num as) = map Num qs \<and> qs \<noteq> [] \<and>
           0 \<in> set qs \<and> 1 \<in> set qs \<and> (\<forall>q\<in>set qs. 0 \<le> q \<and> q \<le> 1)"
proof -
  let ?res = "spec_normalize_channel (map Num as)"
  from normalized_channel[OF assms]
  have r: "Num 0 \<in> set ?res" "Num 1 \<in> set ?res"
    "\<forall>v\<in>set ?res. \<exists>q. v = Num q \<and> 0 \<le> q \<and> q \<le> 1"
    by (simp_all add: spec_normalize_channel_def Let_def)
  have e: "?res = map Num (map num_of ?res)"
    using r(3) by (auto simp: map_idI comp_def intro!: map_idI[symmetric])
  have "0 \<in> set (map num_of ?res)" using r(1) by force
  moreover have "1 \<in> set (map num_of ?res)" using r(2) by force
  moreover have "\<forall>q\<in>set (map num_of ?res). 0 \<le> q \<and> q \<le> 1" using r(3) by auto
  moreover have "map num_of ?res \<noteq> []" using r(1) by auto
  ultimately show ?thesis using e by blast
qed

lemma fold_f32_min_unit:
  assumes "qs \<noteq> []" "0 \<in> set qs" "\<forall>q\<in>set qs. 0 \<le> q"
  shows "fold f32_min (tl (map Num qs)) (hd (map Num qs)) = Num 0"
proof -
  from assms(1) obtain q qs' where q: "qs = q # qs'" by (cases qs) auto
  have "Min (set qs) = 0" using assms(2,3) by (intro Min_eqI) auto
  then show ?thesis using fold_f32_min_Num[of qs' q] by (simp add: q)
qed

lemma fold_f32_max_unit:
  assumes "qs \<noteq> []" "1 \<in> set qs" "\<forall>q\<in>set qs. q \<le> 1"
  shows "fold f32_max (tl (map Num qs)) (hd (map Num qs)) = Num 1"
proof -
  from assms(1) obtain q qs' where q: "qs = q # qs'" by (cases qs) auto
  have "Max (set qs) = 1" using assms(2,3) by (intro Max_eqI) auto
  then show ?thesis using fold_f32_max_Num[of qs' q] by (simp add: q)
qed

lemma normalize_img_channel:
  assumes g: "raw_grid h w c raw" and h: "0 < h" and w: "0 < w" and k: "k < c"
  shows "\<exists>im. normalize_img raw = Inr im \<and> is_grid3 h w c im \<and>
           channel k im =
             spec_normalize_channel (map round32 (channel k (add_channel_axis raw)))"
proof -
  let ?img = "add_channel_axis (astype_float32 raw)"
  have g0: "is_grid3 h w c ?img" using g by (rule is_grid3_astype)
  from reduce_axis01_Inr[OF g0 h w] obtain mins
    where mins: "reduce_axis01 f32_min ?img = Inr mins" "length mins = c" by blast
  let ?img1 = "map (map (\<lambda>px. map2 f32_sub px mins)) ?img"
  have g1: "is_grid3 h w c ?img1"
    by (rule is_grid3_map_pixels[OF g0]) (simp add: mins(2))
  from reduce_axis01_Inr[OF g1 h w] obtain maxs
    where maxs: "reduce_axis01 f32_max ?img1 = Inr maxs" "length maxs = c" by blast
  let ?im = "map (map (\<lambda>px. map2 f32_div px maxs)) ?img1"
  have g2: "is_grid3 h w c ?im"
    by (rule is_grid3_map_pixels[OF g1]) (simp add: maxs(2))
  have n: "normalize_img raw = Inr ?im"
    by (simp add: normalize_img_def Let_def mins(1) maxs(1))
  let ?ch0 = "channel k ?img"
  have c0: "?ch0 = map round32 (channel k (add_channel_axis raw))"
    using g k by (rule channel_astype)
  have mn: "mins ! k = fold f32_min (tl ?ch0) (hd ?ch0)"
    using g0 mins(1) k by (rule reduce_axis01_nth)
  have c1: "channel k ?img1 = map (\<lambda>v. f32_sub v (mins ! k)) ?ch0"
    using g0 mins(2) k by (rule channel_map_pixels)
  have mx: "maxs ! k = fold f32_max (tl (channel k ?img1)) (hd (channel k ?img1))"
    using g1 maxs(1) k by (rule reduce_axis01_nth)
  have c2: "channel k ?im = map (\<lambda>v. f32_div v (maxs ! k)) (channel k ?img1)"
    using g1 maxs(2) k by (rule channel_map_pixels)
  have "channel k ?im = spec_normalize_channel ?ch0"
    unfolding spec_normalize_channel_def Let_def c2 mx c1 mn ..
  with n g2 c0 show ?thesis by simp
qed

lemma round32_2p24: "round32 16777216 = Num 16777216"
  using round32_exact[of "2 ^ 24" 0] by simp

lemma ulp_exponent_2p24_1: "ulp_exponent (16777217 * 2 ^ 149) = 150"
  apply (rule ulp_exponent_unique)
    apply simp
   apply simp
  apply simp
  done

lemma floor_2p24_1: "\<lfloor>16777217 / 2 :: rat\<rfloor> = 8388608" by (simp add: floor_eq_iff)

lemma round_half_even_2p24_1: "round_half_even (16777217 * 2 ^ 149 / 2 ^ 150) = 8388608"
proof -
  have "(16777217::rat) * 2 ^ 149 / 2 ^ 150 = 16777217 / 2" by simp
  then show ?thesis by (simp add: round_half_even_def Let_def floor_2p24_1)
qed

lemma round_scaled_2p24_1: "round_scaled (16777217 * f32_scale) = 16777216 * f32_scale"
  unfolding f32_scale_def round_scaled_def ulp_exponent_2p24_1 round_half_even_2p24_1 by simp

lemma round32_2p24_1: "round32 16777217 = Num 16777216"
proof -
  have "(16777216::rat) * f32_scale < 2 ^ 128 * f32_scale" by simp
  moreover have "- (2 ^ 128 * f32_scale) < (16777216::rat) * f32_scale"
    by (simp add: f32_scale_def)
  ultimately show ?thesis
    unfolding round32_def Let_def round_scaled_2p24_1 by simp
qed

lemma collapsing_cast:
  "add_channel_axis (astype_float32 collapsing_raw) = [[[Num 16777216], [Num 16777216]]]"
  by (simp add: astype_float32_def add_channel_axis_def collapsing_raw_def round32_2p24 round32_2p24_1)
lemma collapsing_normalize: "normalize_img collapsing_raw = Inr [[[NaN], [NaN]]]"
  unfolding normalize_img_def collapsing_cast
  by (simp add: reduce_axis01_def Let_def)

lemma two_channel_normalize:
  "normalize_img two_channel_raw =
     Inr [[[Num 0, Num 0], [Num (1 / 4), Num (1 / 2)]],
          [[Num (1 / 2), Num (1 / 4)], [Num 1, Num 1]]]"
  by (simp add: normalize_eval two_channel_raw_def)

lemma ulp_exponent_top:
  assumes "2 ^ 276 \<le> \<bar>y\<bar>" shows "ulp_exponent y = 253"
proof (rule ccontr)
  assume "ulp_exponent y \<noteq> 253"
  with ulp_exponent_le[of y] have lt: "ulp_exponent y < 253" by simp
  then have "\<bar>y\<bar> < 2 ^ (ulp_exponent y + 24)" by (rule ulp_exponent_upper)
  moreover have "(2::rat) ^ (ulp_exponent y + 24) \<le> 2 ^ 276"
    using lt by (intro power_increasing) auto
  ultimately show False using assms by linarith
qed

lemma round32_2p127: "round32 (2 ^ 127) = Num (2 ^ 127)" "round32 (- (2 ^ 127)) = Num (- (2 ^ 127))"
proof -
  define B :: rat where "B = 2 ^ 127"
  define C :: rat where "C = 2 ^ 128"
  have BC: "0 < B" "B < C" by (simp_all add: B_def C_def)
  have r: "round_scaled (B * f32_scale) = B * f32_scale"
    unfolding B_def by (rule round_scaled_pow) simp
  have l: "B * f32_scale < C * f32_scale" "0 < B * f32_scale"
    using BC by simp_all
  then have n: "\<not> C * f32_scale \<le> B * f32_scale" "\<not> B * f32_scale \<le> - (C * f32_scale)"
    "\<not> C * f32_scale \<le> - (B * f32_scale)" "\<not> - (B * f32_scale) \<le> - (C * f32_scale)"
    by linarith+
  have "round32 B = Num B"
    unfolding round32_def Let_def r C_def[symmetric] using n by simp
  then show "round32 (2 ^ 127) = Num (2 ^ 127)" unfolding B_def .
  have r': "round_scaled (- B * f32_scale) = - (B * f32_scale)"
    using r by (simp add: round_scaled_minus flip: minus_mult_left)
  have "round32 (- B) = Num (- B)"
    unfolding round32_def Let_def r' C_def[symmetric] using n by simp
  then show "round32 (- (2 ^ 127)) = Num (- (2 ^ 127))" unfolding B_def .
qed

lemma round32_2p128: "round32 (2 ^ 127 + 2 ^ 127) = PInf"
proof -
  have s: "((2::rat) ^ 127 + 2 ^ 127) * f32_scale = rat_of_int (2 ^ 24) * 2 ^ 253"
    by (simp add: f32_scale_def)
  have e: "ulp_exponent (rat_of_int (2 ^ 24) * 2 ^ 253) = 253"
    by (rule ulp_exponent_top) simp
  have h: "round_half_even (rat_of_int (2 ^ 24) * 2 ^ 253 / 2 ^ 253) = 2 ^ 24"
    by (simp only: nonzero_mult_div_cancel_right power_not_zero zero_neq_numeral
        round_half_even_of_int not_False_eq_True)
  have r: "round_scaled (rat_of_int (2 ^ 24) * 2 ^ 253) = rat_of_int (2 ^ 24) * 2 ^ 253"
    unfolding round_scaled_def e h ..
  have "(2::rat) ^ 128 * f32_scale \<le> rat_of_int (2 ^ 24) * 2 ^ 253"
    by (simp add: f32_scale_def)
  then show ?thesis
    unfolding round32_def Let_def s r by (simp only: if_True)
qed

lemma overflow_shape:
  assumes "0 < B" "round32 B = Num B" "round32 (- B) = Num (- B)" "round32 (B + B) = PInf"
  shows "normalize_img (Raw2 [[- B, B]]) = Inr [[[Num 0], [NaN]]]"
  using assms
  by (simp add: normalize_img_def astype_float32_def add_channel_axis_def reduce_axis01_def
      Let_def f32_max_def)

lemma overflowing_normalize: "normalize_img overflowing_raw = Inr [[[Num 0], [NaN]]]"
  unfolding overflowing_raw_def
  by (rule overflow_shape) (simp_all only: round32_2p127 round32_2p128, simp)

subsection \<open>When the construction succeeds, and its keys\<close>

lemma reduce_axis01_Inr_iff: "(\<exists>v. reduce_axis01 f im = Inr v) \<longleftrightarrow> concat im \<noteq> []"
  by (cases "concat im") (simp_all add: reduce_axis01_def del: concat_eq_Nil_conv)

lemma concat_map_pixels_Nil: "concat (map (map f) im) = [] \<longleftrightarrow> concat im = []"
  by (simp add: map_concat[symmetric] del: concat_eq_Nil_conv)

lemma concat_astype_Nil:
  "concat (add_channel_axis (astype_float32 r)) = [] \<longleftrightarrow> concat (add_channel_axis r) = []"
  by (cases r)
    (simp_all add: add_channel_axis_def astype_float32_def concat_map_pixels_Nil
      del: concat_eq_Nil_conv)

lemma normalize_img_Inr_iff:
  "(\<exists>im. normalize_img r = Inr im) \<longleftrightarrow> concat (add_channel_axis r) \<noteq> []"
proof
  assume "\<exists>im. normalize_img r = Inr im"
  then have "\<exists>v. reduce_axis01 f32_min (add_channel_axis (astype_float32 r)) = Inr v"
    by (auto simp: normalize_img_def Let_def split: sum.splits)
  then show "concat (add_channel_axis r) \<noteq> []"
    by (metis reduce_axis01_Inr_iff concat_astype_Nil)
next
  assume ne: "concat (add_channel_axis r) \<noteq> []"
  let ?img = "add_channel_axis (astype_float32 r)"
  from ne have n0: "concat ?img \<noteq> []" by (simp only: concat_astype_Nil not_False_eq_True)
  then obtain mins where mins: "reduce_axis01 f32_min ?img = Inr mins"
    using reduce_axis01_Inr_iff[of f32_min ?img] by blast
  let ?img1 = "map (map (\<lambda>px. map2 f32_sub px mins)) ?img"
  from n0 have "concat ?img1 \<noteq> []" by (simp only: concat_map_pixels_Nil not_False_eq_True)
  then obtain maxs where maxs: "reduce_axis01 f32_max ?img1 = Inr maxs"
    using reduce_axis01_Inr_iff[of f32_max ?img1] by blast
  show "\<exists>im. normalize_img r = Inr im"
    by (simp add: normalize_img_def Let_def mins maxs)
qed

lemma construction_succeeds_iff:
  "(\<exists>ds. Dataset_init raw marker lab s = Inr ds) \<longleftrightarrow>
     \<not> shapes_differ raw marker lab \<and> concat (add_channel_axis raw) \<noteq> []"
proof
  assume "\<exists>ds. Dataset_init raw marker lab s = Inr ds"
  then obtain ds where ds: "Dataset_init raw marker lab s = Inr ds" ..
  then have "\<not> shapes_differ raw marker lab" "\<exists>im. normalize_img raw = Inr im"
    by (auto simp: Dataset_init_def split: if_splits sum.splits)
  then show "\<not> shapes_differ raw marker lab \<and> concat (add_channel_axis raw) \<noteq> []"
    by (simp only: normalize_img_Inr_iff simp_thms)
next
  assume a: "\<not> shapes_differ raw marker lab \<and> concat (add_channel_axis raw) \<noteq> []"
  then obtain im where im: "normalize_img raw = Inr im"
    using normalize_img_Inr_iff[of raw] by blast
  from create_patches_Inr[of im marker lab s] obtain ps
    where "create_patches im marker lab s = Inr ps" ..
  with a im show "\<exists>ds. Dataset_init raw marker lab s = Inr ds"
    by (simp add: Dataset_init_def del: concat_eq_Nil_conv)
qed

lemma shapes_differ_Raw3: "shapes_differ (Raw3 g) marker lab"
  by (simp add: shapes_differ_def shape2_def shape3_def)

lemma keys_with_background:
  assumes init: "Dataset_init raw marker lab s = Inr ds"
    and zero: "0 \<in> set (concat marker)" and nonneg: "\<forall>v\<in>set (concat marker). 0 \<le> v"
  shows "set (map fst (patch_set ds)) = {v \<in> set (concat marker). 0 < v}"
    and "distinct (map fst (patch_set ds))"
proof -
  let ?A = "set (concat marker)"
  from init obtain im where cp: "create_patches im marker lab s = Inr (patch_set ds)"
    by (rule Dataset_init_InrD)
  have k: "map fst (patch_set ds) = indices_of marker"
    by (rule create_patches_items(1)[OF cp])
  have m: "Min ?A = 0" using zero nonneg by (intro Min_eqI) auto
  have "np_unique marker = sorted_list_of_set ?A"
    by (simp only: np_unique_def sort_remdups_set)
  also have "\<dots> = Min ?A # sorted_list_of_set (?A - {Min ?A})"
  proof (rule sorted_list_of_set_nonempty)
    show "finite ?A" by (rule finite_set)
    show "?A \<noteq> {}" using zero by (metis empty_iff)
  qed
  finally have "np_unique marker = 0 # sorted_list_of_set (?A - {0})"
    by (simp only: m)
  then have "indices_of marker = sorted_list_of_set (?A - {0})"
    by (simp only: indices_of_def list.sel)
  with k have e: "map fst (patch_set ds) = sorted_list_of_set (?A - {0})" by simp
  show "distinct (map fst (patch_set ds))" unfolding e by simp
  show "set (map fst (patch_set ds)) = {v \<in> ?A. 0 < v}"
    unfolding e using nonneg by (auto simp: order.strict_iff_order)
qed

section \<open>The properties of the specification\<close>

text \<open>
  C1. For every construction that succeeds on a raw image of \<open>c\<close> channels and a marker
  image of the same height \<open>h\<close> and width \<open>w\<close>, with a crop size \<open>s\<close> between 0 and
  \<open>min h w\<close>, the \<open>data\<close> tensor of every stored record has \<open>s\<close> rows of \<open>s\<close> pixels of
  \<open>c + 1\<close> values each, that is \<open>s * s * (c + 1)\<close> entries, wherever the object lies.
\<close>

theorem patch_data_shape:
  assumes "Dataset_init raw marker lab s = Inr ds"
    and "raw_grid h w c raw" and "is_grid h w marker"
    and "0 \<le> s" and "s \<le> int (min h w)"
    and "kp \<in> set (patch_set ds)"
  shows "is_grid3 (nat s) (nat s) (c + 1) (data (snd kp)) \<and>
         elements (data (snd kp)) = nat s * nat s * (c + 1)"
proof -
  from assms(1) obtain im where cp: "create_patches im marker lab s = Inr (patch_set ds)"
    and i: "img ds = im"
    by (rule Dataset_init_InrD)
  have im: "is_grid3 h w c im"
    using Dataset_init_grids(2)[OF assms(1-3)] i by simp
  from create_patches_items(2)[OF cp] assms(6)
  have mp: "make_patch im marker lab s (fst kp) = Inr (snd kp)" by blast
  have "is_grid3 (nat s) (nat s) (Suc c) (data (snd kp))"
    by (rule make_patch_grid[OF mp im assms(3)]) (use assms(4,5) in auto)
  then show ?thesis by (simp add: elements_grid3)
qed

theorem patch_data_shape_witness:
  "Dataset_init demo_raw demo_marker (Some demo_label) 2 = Inr demo_dataset \<and>
   raw_grid 3 4 1 demo_raw \<and> is_grid 3 4 demo_marker \<and> (0::int) \<le> 2 \<and> 2 \<le> int (min 3 4) \<and>
   (2, demo_patch2) \<in> set (patch_set demo_dataset) \<and>
   is_grid3 2 2 2 (data demo_patch2) \<and> elements (data demo_patch2) = 8"
proof -
  have h2: "raw_grid 3 4 1 demo_raw" by code_simp
  have h3: "is_grid 3 4 demo_marker" by code_simp
  have h4: "(0::int) \<le> 2" by simp
  have h5: "2 \<le> int (min 3 4)" by simp
  have h6: "(2, demo_patch2) \<in> set (patch_set demo_dataset)"
    by (simp add: demo_dataset_def)
  from patch_data_shape[OF demo_init h2 h3 h4 h5 h6] demo_init h2 h3 h6
  show ?thesis by (simp add: numeral_2_eq_2)
qed




text \<open>
  C2. The marker \<open>[[1, 2], [2, 1]]\<close> has the positive values 1 and 2 and no 0. The
  construction stores a record for 2 only: \<open>[1:]\<close> drops the smallest value, here 1.
  When the marker has a 0 and no negative value, the keys are its positive values, each
  once (\<open>keys_with_background\<close>).
\<close>

theorem smallest_identity_dropped:
  "Dataset_init small_raw full_marker None 1 =
     Inr \<lparr> img = small_img, marker_img = full_marker, label_img = None, crop_size = 1,
           patch_set = [(2, \<lparr> coordinate = (1, 1), data = [[[Num 1, Num 0]]],
                               label = None \<rparr>)] \<rparr> \<and>
   sort (remdups (filter (\<lambda>v. 0 < v) (concat full_marker))) = [1, 2]"
proof -
  have a: "\<not> shapes_differ small_raw full_marker None" by code_simp
  have b: "create_patches small_img full_marker None 1 =
      Inr [(2, \<lparr> coordinate = (1, 1), data = [[[Num 1, Num 0]]], label = None \<rparr>)]"
    by code_simp
  have c: "sort (remdups (filter (\<lambda>v. 0 < v) (concat full_marker))) = [1, 2]" by code_simp
  from init_from_parts[OF a small_normalize b] c show ?thesis by blast
qed

text \<open>
  C4. A raw image of shape (2, 2, 2) and a marker image of shape (2, 2) have the same
  height and width, and the construction raises the size error: \<open>__init__\<close> compares the
  whole shapes. No raw image with a channel axis is accepted (\<open>shapes_differ_Raw3\<close>,
  \<open>construction_succeeds_iff\<close>).
\<close>

theorem multichannel_raw_rejected:
  "Dataset_init (Raw3 [[[1, 2], [3, 4]], [[5, 6], [7, 8]]]) [[0, 1], [0, 0]] None 1 =
     Inl ImageSizeMismatch \<and>
   take 2 (raw_shape (Raw3 [[[1, 2], [3, 4]], [[5, 6], [7, 8]]])) = shape2 [[0, 1], [0, 0 :: int]]"
  by code_simp

text \<open>
  C10. With crop size 4 on a 2 x 2 image the construction succeeds, and the data tensor
  of its record has 2 x 1 x 2 = 4 entries, fewer than 4 x 4 x 2.
\<close>

theorem oversized_crop_truncates:
  "Dataset_init small_raw corner_marker None 4 =
     Inr \<lparr> img = small_img, marker_img = corner_marker, label_img = None, crop_size = 4,
           patch_set = [(1, \<lparr> coordinate = (- 2, - 1),
                               data = [[[Num (1 / 4), Num 1]], [[Num 1, Num 0]]],
                               label = None \<rparr>)] \<rparr> \<and>
   (4::int) > int (min (length corner_marker) (shape1 corner_marker)) \<and>
   elements [[[Num (1 / 4), Num 1]], [[Num 1, Num 0]]] = 4 \<and> (4::nat) < 4 * 4 * (1 + 1)"
proof -
  have a: "\<not> shapes_differ small_raw corner_marker None" by code_simp
  have b: "create_patches small_img corner_marker None 4 =
      Inr [(1, \<lparr> coordinate = (- 2, - 1),
                  data = [[[Num (1 / 4), Num 1]], [[Num 1, Num 0]]], label = None \<rparr>)]"
    by code_simp
  have c: "(4::int) > int (min (length corner_marker) (shape1 corner_marker))"
    "elements [[[Num (1 / 4), Num 1]], [[Num 1, Num 0]]] = 4" "(4::nat) < 4 * 4 * (1 + 1)"
    by code_simp+
  from init_from_parts[OF a small_normalize b] c show ?thesis by blast
qed

text \<open>
  C5. An extractor constructed without a label image raises the error of line 84 whenever
  the label-paired enumeration is run. One constructed with a label image yields, for
  the stored records in their order, the pair of \<open>data\<close> and \<open>label\<close> of each record,
  without the coordinate.
\<close>

theorem label_paired_enumeration:
  assumes "Dataset_init raw marker lab s = Inr ds"
  shows "(case lab of
            None \<Rightarrow> generator_with_label ds = Inl LabelNotSet
          | Some l \<Rightarrow> (\<exists>ys. generator_with_label ds = Inr ys \<and>
                map (\<lambda>p. (data p, label p)) (generator ds) =
                map (\<lambda>y. (fst y, Some (snd y))) ys))"
proof -
  from assms obtain im where cp: "create_patches im marker lab s = Inr (patch_set ds)"
    and li: "label_img ds = lab"
    by (rule Dataset_init_InrD)
  show ?thesis
  proof (cases lab)
    case None
    with li show ?thesis by (simp add: generator_with_label_def)
  next
    case (Some l)
    have "\<forall>p\<in>set (map snd (patch_set ds)). label p \<noteq> None"
      using create_patches_items(2)[OF cp] Some by (auto dest: make_patch_label)
    from unpack3_labelled[OF this] Some li show ?thesis
      by (simp add: generator_with_label_def generator_def)
  qed
qed

theorem label_paired_enumeration_witness:
  "Dataset_init demo_raw demo_marker (Some demo_label) 2 = Inr demo_dataset \<and>
   generator_with_label demo_dataset =
     Inr [(data demo_patch1, [[1, 0], [0, 0]]), (data demo_patch2, [[0, 1], [1, 1]])] \<and>
   Dataset_init demo_raw demo_marker None 2 = Inr plain_dataset \<and>
   generator_with_label plain_dataset = Inl LabelNotSet"
proof -
  have "generator_with_label demo_dataset =
     Inr [(data demo_patch1, [[1, 0], [0, 0]]), (data demo_patch2, [[0, 1], [1, 1]])]"
    by code_simp
  with label_paired_enumeration[OF demo_init] label_paired_enumeration[OF plain_init]
    demo_init plain_init
  show ?thesis by simp
qed



text \<open>
  C7. When no stored coordinate lies in the sampled rectangle, the round does not yield
  an empty stack: \<open>np.array([])\<close> has shape \<open>(0,)\<close>, which does not broadcast against
  the anchor of shape \<open>(2,)\<close>, and the subtraction of line 119 raises.
\<close>

theorem empty_selection_raises:
  assumes "integers g (int (length (marker_img ds)) - area - crop_size ds) = Inr (a0, g1)"
    and "integers g1 (int (shape1 (marker_img ds)) - area - crop_size ds) = Inr (a1, g2)"
    and "selected ds (a0, a1) area = []"
  shows "within_area_round ds g area = Inl BroadcastMismatch"
  using assms
  by (simp add: within_area_round_def Let_def tf_stack_Nil subtract_anchor_Nil)

theorem empty_selection_raises_witness:
  "integers (\<lambda>i. 1) (int (length (marker_img wide_dataset)) - 2 - crop_size wide_dataset) =
     Inr (1, (\<lambda>i. 1)) \<and>
   integers (\<lambda>i. 1) (int (shape1 (marker_img wide_dataset)) - 2 - crop_size wide_dataset) =
     Inr (1, (\<lambda>i. 1)) \<and>
   selected wide_dataset (1, 1) 2 = [] \<and>
   within_area_round wide_dataset (\<lambda>i. 1) 2 = Inl BroadcastMismatch"
proof -
  have h1: "integers (\<lambda>i. 1) (int (length (marker_img wide_dataset)) - 2 - crop_size wide_dataset) =
     Inr (1, (\<lambda>i. 1))"
    by (simp only: wide_sizes) (simp add: integers_def)
  have h2: "integers (\<lambda>i. 1) (int (shape1 (marker_img wide_dataset)) - 2 - crop_size wide_dataset) =
     Inr (1, (\<lambda>i. 1))"
    by (simp only: wide_sizes) (simp add: integers_def)
  from empty_selection_raises[OF h1 h2 wide_selected_11] h1 h2 wide_selected_11
  show ?thesis by simp
qed

text \<open>
  C9, as amended. On the 100 x 100 marker image with one object of identity 1 on rows 40
  to 45 and columns 40 to 45 (six rows, six columns) and crop size 64, the centroid is
  (43, 43): the mean 42.5 rounded half up. The window starts at (11, 11), the data tensor
  has 64 x 64 pixels of one raw channel and the mask, and the mask channel is true exactly
  on rows 29 to 34 and columns 29 to 34 of the window.
\<close>

theorem single_object_example:
  assumes "is_grid 100 100 g"
  shows "center_of_mass_as_int (eq_mask 1 (object_marker 6)) = Inr (43, 43) \<and>
         (\<exists>ds p. Dataset_init (Raw2 g) (object_marker 6) None 64 = Inr ds \<and>
           patch_set ds = [(1, p)] \<and> coordinate p = (11, 11) \<and>
           is_grid3 64 64 (1 + 1) (data p) \<and>
           map (map last) (data p) = map (map bool_to_float) (window_mask 29 6))"
  using single_object_patch[OF assms _ _ centroid_object_6 window_6 _ _ crop_object_6]
    centroid_object_6 by simp

theorem single_object_example_witness:
  "is_grid 100 100 ramp \<and>
   center_of_mass_as_int (eq_mask 1 (object_marker 6)) = Inr (43, 43) \<and>
   (\<exists>ds p. Dataset_init (Raw2 ramp) (object_marker 6) None 64 = Inr ds \<and>
      patch_set ds = [(1, p)] \<and> coordinate p = (11, 11) \<and>
      is_grid3 64 64 (1 + 1) (data p) \<and>
      map (map last) (data p) = map (map bool_to_float) (window_mask 29 6))"
  using single_object_example[OF is_grid_ramp] is_grid_ramp by blast

text \<open>
  C9 as stated gives the centroid (42, 42) and the window (10, 10) for this object. Those
  are the values for the object on rows and columns 40 to 44 (\<open>single_object_half_open\<close>).
\<close>

theorem single_object_counterexample:
  "center_of_mass_as_int (eq_mask 1 (object_marker 6)) = Inr (43, 43) \<and>
   (case Dataset_init (Raw2 ramp) (object_marker 6) None 64 of
      Inl e \<Rightarrow> [] | Inr ds \<Rightarrow> map (\<lambda>kp. coordinate (snd kp)) (patch_set ds)) = [(11, 11)]"
proof -
  from single_object_patch[OF is_grid_ramp _ _ centroid_object_6 window_6 _ _ crop_object_6]
  obtain ds p where "Dataset_init (Raw2 ramp) (object_marker 6) None 64 = Inr ds"
    "patch_set ds = [(1, p)]" "coordinate p = (11, 11)"
    by auto
  then show ?thesis using centroid_object_6 by simp
qed

text \<open>
  C8, as amended. For every raw image, of two or three dimensions, and every channel whose
  values have a magnitude of at most \<open>2 ^ 126\<close> and are not all equal after the
  conversion to float32: \<open>np.min\<close> of the channel of the normalised image is exactly 0
  and \<open>np.max\<close> is exactly 1, and the channel is what the specification describes:
  the float32 values minus their minimum, divided by the maximum of the differences.
\<close>

theorem normalized_channel_range:
  assumes g: "raw_grid h w c raw" and h: "0 < h" and w: "0 < w" and k: "k < c"
    and bound: "\<forall>x\<in>set (channel k (add_channel_axis raw)). \<bar>x\<bar> \<le> 2 ^ 126"
    and two: "\<exists>x\<in>set (channel k (add_channel_axis raw)).
                \<exists>y\<in>set (channel k (add_channel_axis raw)). round32 x \<noteq> round32 y"
  shows "\<exists>im mins maxs. normalize_img raw = Inr im \<and>
           reduce_axis01 f32_min im = Inr mins \<and> mins ! k = Num 0 \<and>
           reduce_axis01 f32_max im = Inr maxs \<and> maxs ! k = Num 1 \<and>
           channel k im =
             spec_normalize_channel (map round32 (channel k (add_channel_axis raw)))"
proof -
  let ?xs = "channel k (add_channel_axis raw)"
  from normalize_img_channel[OF g h w k] obtain im where
    n: "normalize_img raw = Inr im" and gi: "is_grid3 h w c im"
    and ch: "channel k im = spec_normalize_channel (map round32 ?xs)"
    by blast
  define as where "as = map (\<lambda>x. num_of (round32 x)) ?xs"
  have fin: "round32 x = Num (num_of (round32 x)) \<and> \<bar>num_of (round32 x)\<bar> \<le> 2 ^ 126"
    if "x \<in> set ?xs" for x
    using round32_Num_pow[of 126 x] bound that by auto
  have cast: "map round32 ?xs = map Num as"
    unfolding as_def using fin by (auto simp: comp_def)
  have len: "length (channel k im) = h * w"
    using gi by (simp add: channel_def length_concat_grid is_grid3_def is_grid_def list_all_iff)
  have "length (spec_normalize_channel (map round32 ?xs)) = length ?xs"
    by (simp add: spec_normalize_channel_def Let_def)
  with len ch h w have ne: "as \<noteq> []" by (auto simp: as_def)
  have fl: "\<forall>a\<in>set as. \<bar>a\<bar> \<le> 2 ^ 126 \<and> a * f32_scale \<in> \<int>"
    unfolding as_def using fin by (auto intro: round32_grid)
  have tw: "\<exists>a\<in>set as. \<exists>b\<in>set as. a \<noteq> b"
  proof -
    from two obtain x y where xy: "x \<in> set ?xs" "y \<in> set ?xs" "round32 x \<noteq> round32 y"
      by blast
    with fin have "num_of (round32 x) \<noteq> num_of (round32 y)" by metis
    with xy(1,2) show ?thesis unfolding as_def by auto
  qed
  from spec_normalize_channel_range[OF ne fl tw] obtain qs where
    qs: "spec_normalize_channel (map Num as) = map Num qs" "qs \<noteq> []"
      "0 \<in> set qs" "1 \<in> set qs" "\<forall>q\<in>set qs. 0 \<le> q \<and> q \<le> 1"
    by blast
  have chq: "channel k im = map Num qs" using ch cast qs(1) by simp
  from reduce_axis01_Inr[OF gi h w] obtain mins maxs where
    r: "reduce_axis01 f32_min im = Inr mins" "reduce_axis01 f32_max im = Inr maxs"
    by blast
  have "mins ! k = Num 0"
    using reduce_axis01_nth[OF gi r(1) k] fold_f32_min_unit[OF qs(2,3)] qs(5)
    by (simp add: chq)
  moreover have "maxs ! k = Num 1"
    using reduce_axis01_nth[OF gi r(2) k] fold_f32_max_unit[OF qs(2,4)] qs(5)
    by (simp add: chq)
  ultimately show ?thesis using n r ch by blast
qed

theorem normalized_channel_range_witness:
  "raw_grid 2 2 2 two_channel_raw \<and>
   channel 1 (add_channel_axis two_channel_raw) = [2, 6, 4, 10] \<and>
   round32 2 \<noteq> round32 6 \<and>
   (\<exists>im mins maxs. normalize_img two_channel_raw = Inr im \<and>
      reduce_axis01 f32_min im = Inr mins \<and> mins ! 1 = Num 0 \<and>
      reduce_axis01 f32_max im = Inr maxs \<and> maxs ! 1 = Num 1 \<and>
      channel 1 im =
        spec_normalize_channel (map round32 (channel 1 (add_channel_axis two_channel_raw))))"
proof -
  have g: "raw_grid 2 2 2 two_channel_raw"
    by (simp add: raw_grid_def two_channel_raw_def is_grid3_def is_grid_def)
  have ch: "channel 1 (add_channel_axis two_channel_raw) = [2, 6, 4, 10]"
    by (simp add: channel_def add_channel_axis_def two_channel_raw_def)
  have ne: "round32 2 \<noteq> round32 6" by (simp add: round32_small)
  have b: "\<forall>x\<in>set (channel 1 (add_channel_axis two_channel_raw)). \<bar>x\<bar> \<le> 2 ^ 126"
    unfolding ch by simp
  have t: "\<exists>x\<in>set (channel 1 (add_channel_axis two_channel_raw)).
      \<exists>y\<in>set (channel 1 (add_channel_axis two_channel_raw)). round32 x \<noteq> round32 y"
    unfolding ch by (rule bexI[of _ 2], rule bexI[of _ 6], rule ne) simp_all
  have "\<exists>im mins maxs. normalize_img two_channel_raw = Inr im \<and>
      reduce_axis01 f32_min im = Inr mins \<and> mins ! 1 = Num 0 \<and>
      reduce_axis01 f32_max im = Inr maxs \<and> maxs ! 1 = Num 1 \<and>
      channel 1 im =
        spec_normalize_channel (map round32 (channel 1 (add_channel_axis two_channel_raw)))"
    by (rule normalized_channel_range[OF g _ _ _ b t]) simp_all
  with g ch ne show ?thesis by blast
qed

text \<open>
  C8 as stated asks only that the values of the channel are not all equal. The integers
  \<open>2 ^ 24\<close> and \<open>2 ^ 24 + 1\<close> differ and have the same float32 value, so the channel is
  constant after the conversion and every normalised value is \<open>0 / 0\<close>, NaN. The values
  \<open>- 2 ^ 127\<close> and \<open>2 ^ 127\<close> are float32 values whose difference is not: it rounds to
  infinity, and the greatest normalised value is infinity divided by infinity, NaN.
\<close>

theorem normalized_channel_counterexample:
  "channel 0 (add_channel_axis collapsing_raw) = [16777216, 16777217] \<and>
   normalize_img collapsing_raw = Inr [[[NaN], [NaN]]] \<and>
   channel 0 (add_channel_axis overflowing_raw) = [- (2 ^ 127), 2 ^ 127] \<and>
   normalize_img overflowing_raw = Inr [[[Num 0], [NaN]]]"
proof -
  have "channel 0 (add_channel_axis collapsing_raw) = [16777216, 16777217]"
    by (simp add: channel_def add_channel_axis_def collapsing_raw_def)
  moreover have "channel 0 (add_channel_axis overflowing_raw) = [- (2 ^ 127), 2 ^ 127]"
    by (simp add: channel_def add_channel_axis_def overflowing_raw_def)
  ultimately show ?thesis
    using collapsing_normalize overflowing_normalize by blast
qed

end
